theory Spec2Isabelle
  imports Main "HOL-Library.While_Combinator" "HOL-Library.AList"
begin

section \<open>Errors and generators\<close>

text \<open>
  The exceptions of the Python source that the functions below can raise. A generator
  function is a pair: the items it yields, in order, and the exception that ends it, if
  any (\<open>None\<close> is a normal end, Python's StopIteration).
\<close>

datatype error = ValueError | ZeroDivisionError | KeyError | IndexError | ConstructionError

type_synonym 'a yields = "'a list \<times> error option"

section \<open>The Diophantine solver (matchpy/utils.py)\<close>

text \<open>
  \<open>extended_euclid(a, b)\<close>. Python's \<open>%\<close> and \<open>//\<close> on integers are floor division and
  the remainder with the sign of the divisor, which is what \<open>mod\<close> and \<open>div\<close> are on
  \<open>int\<close> for a divisor other than 0; the divisor \<open>b\<close> is not 0 in the recursive branch.
\<close>

function extended_euclid :: "int \<Rightarrow> int \<Rightarrow> int \<times> int \<times> int" where
  "extended_euclid a b =
     (if b = 0 then (1, 0, a)
      else (case extended_euclid b (a mod b) of
              (x0, y0, d) \<Rightarrow> (y0, x0 - (a div b) * y0, d)))"
  by pat_completeness auto
termination
  by (relation "measure (\<lambda>(a, b). nat \<bar>b\<bar>)") (auto simp: abs_mod_less)

declare extended_euclid.simps [simp del]

text \<open>
  The two loops of \<open>base_solution_linear\<close>, kept as loops over the state
  \<open>(x, y, yielded)\<close>:
  \<^verbatim>\<open>while y >= 0: (if x >= 0: yield (x, y)); x += b; y -= a\<close> and
  \<^verbatim>\<open>while x >= 0: (if y >= 0: yield (x, y)); x -= b; y += a\<close>.
\<close>

definition ascend :: "int \<Rightarrow> int \<Rightarrow> int \<Rightarrow> int \<Rightarrow> (int \<times> int) list" where
  "ascend a b x y =
     snd (snd (while (\<lambda>(x, y, out). 0 \<le> y)
                     (\<lambda>(x, y, out). (x + b, y - a, if 0 \<le> x then out @ [(x, y)] else out))
                     (x, y, [])))"

definition descend :: "int \<Rightarrow> int \<Rightarrow> int \<Rightarrow> int \<Rightarrow> (int \<times> int) list" where
  "descend a b x y =
     snd (snd (while (\<lambda>(x, y, out). 0 \<le> x)
                     (\<lambda>(x, y, out). (x - b, y + a, if 0 \<le> y then out @ [(x, y)] else out))
                     (x, y, [])))"

text \<open>
  \<open>base_solution_linear(a, b, c)\<close>. The ValueError is raised before anything is
  yielded. \<open>math.gcd\<close> is \<open>gcd\<close> on \<open>int\<close> (never negative). The three divisions by
  \<open>d\<close> and the remainder \<open>c % d\<close> have a positive divisor once \<open>a\<close> and \<open>b\<close> are
  positive (lemmas \<open>normalizer_pos\<close> and \<open>extended_euclid_gcd\<close> below), so they
  cannot raise.
\<close>

definition base_solution_linear :: "int \<Rightarrow> int \<Rightarrow> int \<Rightarrow> (int \<times> int) yields" where
  "base_solution_linear a b c =
     (if a \<le> 0 \<or> b \<le> 0 then ([], Some ValueError)
      else
        let d = gcd a (gcd b c); a = a div d; b = b div d; c = c div d in
        if c = 0 then ([(0, 0)], None)
        else
          (case extended_euclid a b of
             (x0, y0, d) \<Rightarrow>
               if c mod d \<noteq> 0 then ([], None)
               else
                 let x = c * x0; y = c * y0 in
                 if x \<le> 0 then (ascend a b x y, None) else (descend a b x y, None)))"

text \<open>
  \<open>solve_linear_diop(total, *coeffs)\<close> and the module's dictionary
  \<open>_linear_diop_solution_cache\<close>, which is passed in and returned. A key of the cache
  is the pair \<open>(total, coeffs)\<close>; an entry is written when the enumeration has come to
  its end without an exception. The one-coefficient branch divides by \<open>coeffs[0]\<close>
  unguarded: Python raises ZeroDivisionError there when it is 0, at the remainder already.
  With three coefficients or more the divisor \<open>remainder_gcd\<close> of the list comprehension
  is positive inside the loop, because \<open>base_solution_linear\<close> has raised otherwise.
\<close>

type_synonym diop_cache = "int \<times> int list \<rightharpoonup> int list list"

definition remainder_gcd :: "int list \<Rightarrow> int" where
  "remainder_gcd coeffs =
     fold (\<lambda>coeff g. gcd g coeff) (drop 3 coeffs) (gcd (coeffs ! 1) (coeffs ! 2))"

function solve_linear_diop :: "diop_cache \<Rightarrow> int \<Rightarrow> int list \<Rightarrow> int list yields \<times> diop_cache" where
  "solve_linear_diop cache total' coeffs =
     (if length coeffs = 0 then ((if total' = 0 then [[]] else [], None), cache)
      else if length coeffs = 1 then
        (if coeffs ! 0 = 0 then (([], Some ZeroDivisionError), cache)
         else ((if total' mod coeffs ! 0 = 0 then [[total' div coeffs ! 0]] else [], None), cache))
      else
        (case cache (total', coeffs) of
           Some solutions \<Rightarrow> ((solutions, None), cache)
         | None \<Rightarrow>
             if length coeffs = 2 then
               (case base_solution_linear (coeffs ! 0) (coeffs ! 1) total' of
                  (pairs, raised) \<Rightarrow>
                    let solutions = map (\<lambda>(x, y). [x, y]) pairs in
                    ((solutions, raised),
                     if raised = None then cache((total', coeffs) \<mapsto> solutions) else cache))
             else
               (case base_solution_linear (coeffs ! 0) (remainder_gcd coeffs) total' of
                  (pairs, raised) \<Rightarrow>
                    (case fold (\<lambda>(x, y) (solutions, stop, cache).
                                  if stop \<noteq> None then (solutions, stop, cache)
                                  else
                                    (case solve_linear_diop cache y
                                            (map (\<lambda>c. c div remainder_gcd coeffs) (tl coeffs)) of
                                       ((rs, e), cache') \<Rightarrow> (solutions @ map ((#) x) rs, e, cache')))
                               pairs ([], None, cache) of
                       (solutions, stop, cache') \<Rightarrow>
                         (case stop of
                            Some e \<Rightarrow> ((solutions, Some e), cache')
                          | None \<Rightarrow>
                              (case raised of
                                 Some e \<Rightarrow> ((solutions, Some e), cache')
                               | None \<Rightarrow> ((solutions, None), cache'((total', coeffs) \<mapsto> solutions))))))))"
  by pat_completeness auto
termination
  by (relation "measure (\<lambda>(cache, total', coeffs). length coeffs)") auto

declare solve_linear_diop.simps [simp del]

text \<open>
  The same enumeration with the cache left out: what \<open>solve_linear_diop\<close> computes when
  no key is found. Theorem \<open>cache_transparent\<close> below shows that the cache never changes
  what is yielded, so the callers of the solver are modelled with this function.
\<close>

function solve_uncached :: "int \<Rightarrow> int list \<Rightarrow> int list yields" where
  "solve_uncached total' coeffs =
     (if length coeffs = 0 then (if total' = 0 then [[]] else [], None)
      else if length coeffs = 1 then
        (if coeffs ! 0 = 0 then ([], Some ZeroDivisionError)
         else (if total' mod coeffs ! 0 = 0 then [[total' div coeffs ! 0]] else [], None))
      else if length coeffs = 2 then
        (case base_solution_linear (coeffs ! 0) (coeffs ! 1) total' of
           (pairs, raised) \<Rightarrow> (map (\<lambda>(x, y). [x, y]) pairs, raised))
      else
        (case base_solution_linear (coeffs ! 0) (remainder_gcd coeffs) total' of
           (pairs, raised) \<Rightarrow>
             (case fold (\<lambda>(x, y) (solutions, stop).
                           if stop \<noteq> None then (solutions, stop)
                           else
                             (case solve_uncached y
                                     (map (\<lambda>c. c div remainder_gcd coeffs) (tl coeffs)) of
                                (rs, e) \<Rightarrow> (solutions @ map ((#) x) rs, e)))
                        pairs ([], None) of
                (solutions, stop) \<Rightarrow>
                  (case stop of
                     Some e \<Rightarrow> (solutions, Some e)
                   | None \<Rightarrow> (solutions, raised)))))"
  by pat_completeness auto
termination
  by (relation "measure (\<lambda>(total', coeffs). length coeffs)") auto

declare solve_uncached.simps [simp del]

text \<open>
  What the solver is documented to enumerate: the tuples \<open>(x\<^sub>1, \<dots>, x\<^sub>n)\<close> of
  non-negative integers with \<open>c\<^sub>1 x\<^sub>1 + \<dots> + c\<^sub>n x\<^sub>n = total\<close>.
\<close>

definition weighted_sum :: "int list \<Rightarrow> int list \<Rightarrow> int" where
  "weighted_sum coeffs xs = sum_list (map2 (*) coeffs xs)"

definition is_solution :: "int \<Rightarrow> int list \<Rightarrow> int list \<Rightarrow> bool" where
  "is_solution total' coeffs xs \<longleftrightarrow>
     length xs = length coeffs \<and> list_all (\<lambda>x. 0 \<le> x) xs \<and> weighted_sum coeffs xs = total'"

text \<open>
  A cache is coherent when every entry holds what the enumeration without a cache yields
  for its key. The empty dictionary the module starts with is coherent.
\<close>

definition cache_ok :: "diop_cache \<Rightarrow> bool" where
  "cache_ok cache \<longleftrightarrow>
     (\<forall>total' coeffs solutions.
        cache (total', coeffs) = Some solutions \<longrightarrow> solve_uncached total' coeffs = (solutions, None))"

section \<open>Vector enumerators (matchpy/utils.py)\<close>

text \<open>
  \<open>integer_partition_vector_iter(total, parts)\<close>; \<open>range(0, total + 1)\<close> is the list
  \<open>[0..total]\<close>, empty for a negative \<open>total\<close>. The function raises nothing, so it is the
  list of the tuples it yields.
\<close>

function integer_partition_vector_iter :: "int \<Rightarrow> int \<Rightarrow> int list list" where
  "integer_partition_vector_iter total' parts =
     (if parts < 0 then []
      else if parts = 0 then (if total' = 0 then [[]] else [])
      else if parts = 1 then [[total']]
      else concat (map (\<lambda>i. map ((#) i) (integer_partition_vector_iter (total' - i) (parts - 1)))
                       [0..total']))"
  by pat_completeness auto
termination
  by (relation "measure (\<lambda>(total', parts). nat parts)") auto

declare integer_partition_vector_iter.simps [simp del]

section \<open>The generator chain (matchpy/utils.py)\<close>

text \<open>
  Generators that work on a mutable store \<open>'s\<close>. A generator object is the list of its
  remaining resumptions: a call of \<open>next()\<close> runs the first of them on the store, which
  yields a datum (and may have changed the store) or raises; on the empty list \<open>next()\<close>
  raises StopIteration. A generator that ends with an exception has a last resumption
  that raises it.
\<close>

type_synonym ('d, 's) resume = "'s \<Rightarrow> error + ('d \<times> 's)"
type_synonym ('d, 's) generator = "('d, 's) resume list"

text \<open>
  \<open>generator_chain(initial_data, *factories)\<close> is itself a generator: the statements of
  a \<open>for\<close> loop over it run each time it yields, and what they do to the store is seen
  by the generators of the chain when they are resumed. The model is therefore the loop
  \<^verbatim>\<open>for next_data in generator_chain(initial_data, *factories): body\<close>, with the body a
  parameter: it yields items to its own consumer and returns the store, or raises.
  \<open>chain_loop\<close> is the \<open>while True\<close> loop with its inner loop, on the state
  (\<open>generators\<close>, \<open>next_data\<close>, \<open>generator_index\<close>), the store and the items yielded so
  far; \<open>generator_index = len(factories)\<close> is the point of the \<open>yield\<close>. The result is
  \<open>None\<close> when the loop never ends, and otherwise the items and the exception that ended
  the loop, if any.
\<close>

partial_function (option) chain_loop ::
  "('d \<Rightarrow> 's \<Rightarrow> error + ('o list \<times> 's)) \<Rightarrow> ('d \<Rightarrow> ('d, 's) generator) list \<Rightarrow>
   ('d, 's) generator option list \<Rightarrow> 'd \<Rightarrow> nat \<Rightarrow> 's \<Rightarrow> 'o list \<Rightarrow> 'o yields option" where
  "chain_loop body factories generators next_data generator_index s out =
     (if generator_index < length factories then
        (case (case generators ! generator_index of
                 None \<Rightarrow> (factories ! generator_index) next_data
               | Some g \<Rightarrow> g) of
           [] \<Rightarrow>
             if generator_index = 0 then Some (out, None)
             else chain_loop body factories (generators[generator_index := None]) next_data
                    (generator_index - 1) s out
         | resume # g \<Rightarrow>
             (case resume s of
                Inl e \<Rightarrow> Some (out, Some e)
              | Inr (d, s') \<Rightarrow>
                  chain_loop body factories (generators[generator_index := Some g]) d
                    (generator_index + 1) s' out))
      else
        (case body next_data s of
           Inl e \<Rightarrow> Some (out, Some e)
         | Inr (items, s') \<Rightarrow>
             chain_loop body factories generators next_data (generator_index - 1) s'
               (out @ items)))"

definition generator_chain ::
  "('d \<Rightarrow> 's \<Rightarrow> error + ('o list \<times> 's)) \<Rightarrow> 'd \<Rightarrow> ('d \<Rightarrow> ('d, 's) generator) list \<Rightarrow> 's \<Rightarrow>
   'o yields option" where
  "generator_chain body initial_data factories s =
     (if length factories = 0 then
        (case body initial_data s of
           Inl e \<Rightarrow> Some ([], Some e)
         | Inr (items, s') \<Rightarrow> Some (items, None))
      else chain_loop body factories (replicate (length factories) None) initial_data 0 s [])"

text \<open>
  The chain over factories that touch no store, collected as a list:
  \<^verbatim>\<open>list(generator_chain(initial_data, *factories))\<close> for factories that return finite
  iterators.
\<close>

definition pure_generator :: "'d list \<Rightarrow> ('d, unit) generator" where
  "pure_generator xs = map (\<lambda>x s. Inr (x, s)) xs"

definition generator_chain_list :: "'d \<Rightarrow> ('d \<Rightarrow> 'd list) list \<Rightarrow> 'd yields option" where
  "generator_chain_list initial_data factories =
     generator_chain (\<lambda>d s. Inr ([d], s)) initial_data
       (map (\<lambda>f d. pure_generator (f d)) factories) ()"

text \<open>
  The nested loop of the specification,
  \<^verbatim>\<open>for d1 in f1(initial): for d2 in f2(d1): ... yield dn\<close>, written from its words.
\<close>

fun nested_loops :: "('d \<Rightarrow> 'd list) list \<Rightarrow> 'd \<Rightarrow> 'd list" where
  "nested_loops [] d = [d]"
| "nested_loops (f # fs) d = concat (map (nested_loops fs) (f d))"

text \<open>
  The same nested loop over generators on a store: a \<open>for\<close> loop over one generator, and
  the loops nested along the list of factories with the body innermost. The result is
  the items yielded and then the exception raised or the store at the end.
\<close>

fun for_loop ::
  "('d, 's) generator \<Rightarrow> ('d \<Rightarrow> 's \<Rightarrow> 'o list \<times> (error + 's)) \<Rightarrow> 's \<Rightarrow> 'o list \<times> (error + 's)" where
  "for_loop [] k s = ([], Inr s)"
| "for_loop (resume # g) k s =
     (case resume s of
        Inl e \<Rightarrow> ([], Inl e)
      | Inr (d, s') \<Rightarrow>
          (case k d s' of
             (items, Inl e) \<Rightarrow> (items, Inl e)
           | (items, Inr s'') \<Rightarrow> (case for_loop g k s'' of (later, r) \<Rightarrow> (items @ later, r))))"

primrec nested_for ::
  "('d \<Rightarrow> 's \<Rightarrow> error + ('o list \<times> 's)) \<Rightarrow> ('d \<Rightarrow> ('d, 's) generator) list \<Rightarrow>
   'd \<Rightarrow> 's \<Rightarrow> 'o list \<times> (error + 's)" where
  "nested_for body [] =
     (\<lambda>d s. case body d s of Inl e \<Rightarrow> ([], Inl e) | Inr (items, s') \<Rightarrow> (items, Inr s'))"
| "nested_for body (f # fs) = (\<lambda>d s. for_loop (f d) (nested_for body fs) s)"

definition finished :: "'o list \<times> (error + 's) \<Rightarrow> 'o yields" where
  "finished r = (case r of (items, Inl e) \<Rightarrow> (items, Some e) | (items, Inr s) \<Rightarrow> (items, None))"

section \<open>The commutative partitioner (matchpy/utils.py)\<close>

text \<open>
  \<open>VariableWithCount\<close> is the named tuple of the source; the name is a string or
  Python's \<open>None\<close> for an anonymous variable.
\<close>

record VariableWithCount =
  name :: "string option"
  count :: int
  minimum :: int

text \<open>
  Modelled from the spec: the class \<open>Multiset\<close> of the package \<open>multiset\<close>, which is not
  part of the sources. It is "an unordered collection with per-element non-negative integer
  multiplicity", iterated "by (value, count) pairs": here the list of the elements that are
  present with their multiplicities, in iteration order. Storing a multiplicity that is
  not positive leaves the element absent; \<open>len\<close> is the sum of the multiplicities.
\<close>

type_synonym 'a Multiset = "('a \<times> int) list"

definition multiplicity :: "'a Multiset \<Rightarrow> 'a \<Rightarrow> int" where
  "multiplicity ms x = (case map_of ms x of None \<Rightarrow> 0 | Some n \<Rightarrow> n)"

definition setitem :: "'a Multiset \<Rightarrow> 'a \<Rightarrow> int \<Rightarrow> 'a Multiset" where
  "setitem ms x n = (if 0 < n then AList.update x n ms else AList.delete x ms)"

definition len :: "'a Multiset \<Rightarrow> int" where
  "len ms = sum_list (map snd ms)"

text \<open>
  The dictionary \<open>subst\<close> from variable names to multisets. One dictionary object is
  created by the partitioner, passed along the chain and yielded, so it is the store of
  the generators, and the datum that flows through the chain is the reference to it
  (\<open>unit\<close>). A fragment handed to the consumer is the content of the dictionary at the
  moment of the yield.
\<close>

type_synonym 'a fragment = "string option \<rightharpoonup> 'a Multiset"

text \<open>
  \<open>_make_variable_generator_factory(value, total, variables)\<close>. One resumption of
  \<open>_factory\<close> takes the next solution, runs \<open>subst[var.name][value] = count\<close> along
  \<open>zip(variables, solution)\<close> (a KeyError when the name is not a key) and yields
  \<open>subst\<close>. An exception of the solver ends the generator.
\<close>

definition assign :: "'a \<Rightarrow> VariableWithCount \<times> int \<Rightarrow> 'a fragment \<Rightarrow> error + 'a fragment" where
  "assign value vc subst =
     (case subst (name (fst vc)) of
        None \<Rightarrow> Inl KeyError
      | Some ms \<Rightarrow> Inr (subst(name (fst vc) \<mapsto> setitem ms value (snd vc))))"

fun assign_all :: "'a \<Rightarrow> (VariableWithCount \<times> int) list \<Rightarrow> 'a fragment \<Rightarrow> error + 'a fragment" where
  "assign_all value [] subst = Inr subst"
| "assign_all value (vc # rest) subst =
     (case assign value vc subst of
        Inl e \<Rightarrow> Inl e
      | Inr subst' \<Rightarrow> assign_all value rest subst')"

definition make_variable_generator_factory ::
  "'a \<Rightarrow> int \<Rightarrow> VariableWithCount list \<Rightarrow> unit \<Rightarrow> (unit, 'a fragment) generator" where
  "make_variable_generator_factory value total' variables =
     (\<lambda>subst_ref.
        case solve_uncached total' (map count variables) of
          (solutions, raised) \<Rightarrow>
            map (\<lambda>solution subst.
                   case assign_all value (zip variables solution) subst of
                     Inl e \<Rightarrow> Inl e
                   | Inr subst' \<Rightarrow> Inr (subst_ref, subst'))
                solutions
            @ (case raised of None \<Rightarrow> [] | Some e \<Rightarrow> [\<lambda>subst. Inl e]))"

text \<open>
  \<open>_commutative_single_variable_partiton_iter(values, variable)\<close>. \<open>divide_values\<close> is its
  loop over \<open>values.items()\<close>: \<open>Inr None\<close> is the early \<open>return\<close>; the remainder by a
  \<open>count\<close> of 0 raises.
\<close>

fun divide_values :: "('a \<times> int) list \<Rightarrow> int \<Rightarrow> 'a Multiset \<Rightarrow> error + 'a Multiset option" where
  "divide_values [] count' new_values = Inr (Some new_values)"
| "divide_values ((element, element_count) # rest) count' new_values =
     (if count' = 0 then Inl ZeroDivisionError
      else if element_count mod count' \<noteq> 0 then Inr None
      else divide_values rest count' (setitem new_values element (element_count div count')))"

definition single_fragment :: "string option \<Rightarrow> 'a Multiset \<Rightarrow> 'a fragment" where
  "single_fragment name' values = (if name' \<noteq> None then [name' \<mapsto> values] else Map.empty)"

definition commutative_single_variable_partiton_iter ::
  "'a Multiset \<Rightarrow> VariableWithCount \<Rightarrow> 'a fragment yields" where
  "commutative_single_variable_partiton_iter values variable =
     (if count variable = 1 then
        (if len values \<ge> minimum variable then ([single_fragment (name variable) values], None)
         else ([], None))
      else
        (case divide_values values (count variable) [] of
           Inl e \<Rightarrow> ([], Some e)
         | Inr None \<Rightarrow> ([], None)
         | Inr (Some new_values) \<Rightarrow>
             if len new_values \<ge> minimum variable
             then ([single_fragment (name variable) new_values], None)
             else ([], None)))"

text \<open>
  The body of the partitioner's loop over the chain: the check of the minimum sizes, which
  stops at the first variable that has too few values, then \<open>del subst[None]\<close> when that
  key is present, and the yield of the dictionary.
\<close>

fun minimum_check :: "VariableWithCount list \<Rightarrow> 'a fragment \<Rightarrow> error + bool" where
  "minimum_check [] subst = Inr True"
| "minimum_check (var # rest) subst =
     (case subst (name var) of
        None \<Rightarrow> Inl KeyError
      | Some ms \<Rightarrow> if len ms < minimum var then Inr False else minimum_check rest subst)"

definition partition_body ::
  "VariableWithCount list \<Rightarrow> unit \<Rightarrow> 'a fragment \<Rightarrow> error + ('a fragment list \<times> 'a fragment)" where
  "partition_body variables subst_ref subst =
     (case minimum_check variables subst of
        Inl e \<Rightarrow> Inl e
      | Inr valid \<Rightarrow>
          if valid then
            (let subst' = (if None \<in> dom subst then subst(None := None) else subst)
             in Inr ([subst'], subst'))
          else Inr ([], subst))"

definition commutative_sequence_variable_partition_iter ::
  "'a Multiset \<Rightarrow> VariableWithCount list \<Rightarrow> 'a fragment yields option" where
  "commutative_sequence_variable_partition_iter values variables =
     (if length variables = 1 then
        Some (commutative_single_variable_partiton_iter values (variables ! 0))
      else
        generator_chain (partition_body variables) ()
          (map (\<lambda>(value, count'). make_variable_generator_factory value count' variables) values)
          (map_of (map (\<lambda>var. (name var, [])) variables)))"

section \<open>Substitution and replacement (patternmatcher/functions.py)\<close>

text \<open>
  Modelled from the spec: the expression tree of \<open>patternmatcher/expressions.py\<close>, which
  is not part of the sources: "polymorphic over variants {Symbol, Variable, Operation}",
  an operation "owns an ordered sequence of child Expressions" and is built "from a flat
  operand list" by \<open>from_args\<close>, which "must fail deterministically if an operand list is
  invalid for that operator". The head of an operation stands for its class, and
  \<open>from_args\<close> is a parameter of the functions below: \<open>None\<close> is its failure.
\<close>

datatype expression = Symbol string | Variable string | Operation string "expression list"

type_synonym constructor = "string \<Rightarrow> expression list \<Rightarrow> expression option"

definition construct :: "constructor \<Rightarrow> string \<Rightarrow> expression list \<Rightarrow> error + expression" where
  "construct from_args head operands =
     (case from_args head operands of None \<Rightarrow> Inl ConstructionError | Some e \<Rightarrow> Inr e)"

text \<open>
  A value of the type \<open>Union[Expression, List[Expression]]\<close>: what a variable is bound
  to, and what \<open>substitute\<close> and \<open>replace\<close> take and return.
\<close>

datatype replacement = Single expression | Many "expression list"

type_synonym substitution = "string \<rightharpoonup> replacement"

text \<open>
  \<open>substitute(expression, substitution)\<close>; \<open>substitute_operands\<close> is its loop over the
  operands, which returns \<open>new_operands\<close> and \<open>any_replaced\<close>.
\<close>

fun substitute :: "constructor \<Rightarrow> expression \<Rightarrow> substitution \<Rightarrow> error + (replacement \<times> bool)"
  and substitute_operands ::
    "constructor \<Rightarrow> expression list \<Rightarrow> substitution \<Rightarrow> error + (expression list \<times> bool)" where
  "substitute from_args (Variable x) substitution =
     (case substitution x of
        Some bound \<Rightarrow> Inr (bound, True)
      | None \<Rightarrow> Inr (Single (Variable x), False))"
| "substitute from_args (Symbol a) substitution = Inr (Single (Symbol a), False)"
| "substitute from_args (Operation head operands) substitution =
     (case substitute_operands from_args operands substitution of
        Inl e \<Rightarrow> Inl e
      | Inr (new_operands, any_replaced) \<Rightarrow>
          if any_replaced then
            (case construct from_args head new_operands of
               Inl e \<Rightarrow> Inl e
             | Inr e \<Rightarrow> Inr (Single e, True))
          else Inr (Single (Operation head operands), False))"
| "substitute_operands from_args [] substitution = Inr ([], False)"
| "substitute_operands from_args (operand # operands) substitution =
     (case substitute from_args operand substitution of
        Inl e \<Rightarrow> Inl e
      | Inr (result, replaced) \<Rightarrow>
          (case substitute_operands from_args operands substitution of
             Inl e \<Rightarrow> Inl e
           | Inr (new_operands, any_replaced) \<Rightarrow>
               Inr ((case result of Many es \<Rightarrow> es | Single e \<Rightarrow> [e]) @ new_operands,
                    replaced \<or> any_replaced)))"

text \<open>
  Python's list operations with an index that may be negative: \<open>xs[i]\<close> is in range for
  \<open>-len(xs) \<le> i < len(xs)\<close> (the caller decides what happens outside), the slices
  \<open>xs[:i]\<close> and \<open>xs[i:]\<close> clamp.
\<close>

definition py_index :: "'a list \<Rightarrow> int \<Rightarrow> nat" where
  "py_index xs i = nat (if i < 0 then int (length xs) + i else i)"

definition py_slice_to :: "'a list \<Rightarrow> int \<Rightarrow> 'a list" where
  "py_slice_to xs i = take (nat (if i < 0 then int (length xs) + i else i)) xs"

definition py_slice_from :: "'a list \<Rightarrow> int \<Rightarrow> 'a list" where
  "py_slice_from xs i = drop (nat (if i < 0 then int (length xs) + i else i)) xs"

text \<open>
  \<open>replace(expression, position, replacement)\<close>, with \<open>position\<close> a tuple of integers.
  The source tests \<open>position[0] >= len(expression.operands)\<close> only; an index below
  \<open>-len(expression.operands)\<close> raises the IndexError of the list access
  \<open>expression.operands[pos]\<close>.
\<close>

function replace :: "constructor \<Rightarrow> expression \<Rightarrow> int list \<Rightarrow> replacement \<Rightarrow> error + replacement" where
  "replace from_args expression [] replacement = Inr replacement"
| "replace from_args (Symbol a) (pos # position) replacement = Inl IndexError"
| "replace from_args (Variable x) (pos # position) replacement = Inl IndexError"
| "replace from_args (Operation head operands) (pos # position) replacement =
     (if pos \<ge> int (length operands) then Inl IndexError
      else if pos < - int (length operands) then Inl IndexError
      else
        (case replace from_args (operands ! py_index operands pos) position replacement of
           Inl e \<Rightarrow> Inl e
         | Inr (Many subexpr) \<Rightarrow>
             map_sum id Single
               (construct from_args head
                  (py_slice_to operands pos @ subexpr @ py_slice_from operands (pos + 1)))
         | Inr (Single subexpr) \<Rightarrow>
             map_sum id Single
               (construct from_args head (operands[py_index operands pos := subexpr]))))"
  by pat_completeness auto
termination
  by (relation "measure (\<lambda>(from_args, expression, position, replacement). length position)") auto

declare replace.simps [simp del]

text \<open>The names of the variables that occur in an expression.\<close>

fun variables_of :: "expression \<Rightarrow> string set" where
  "variables_of (Variable x) = {x}"
| "variables_of (Symbol a) = {}"
| "variables_of (Operation head operands) = (\<Union>operand \<in> set operands. variables_of operand)"

text \<open>
  The positions that \<open>replace\<close> accepts: every index along the path is an index Python
  accepts for the operand list it is applied to, negative ones counting from the end.
\<close>

fun accepted_position :: "expression \<Rightarrow> int list \<Rightarrow> bool" where
  "accepted_position expression [] = True"
| "accepted_position (Operation head operands) (pos # position) =
     (- int (length operands) \<le> pos \<and> pos < int (length operands)
      \<and> accepted_position (operands ! py_index operands pos) position)"
| "accepted_position (Symbol a) (pos # position) = False"
| "accepted_position (Variable x) (pos # position) = False"

section \<open>What the partitioner is to yield\<close>

text \<open>
  The multiset a fragment gives a variable, and the property of a fragment that the
  specification states: every variable is bound to a multiset (no multiplicity is
  negative) of at least \<open>minimum\<close> elements, and for every value the multiplicities in
  the bindings, each taken \<open>count\<close> times, add up to its multiplicity in the input.
\<close>

definition binding :: "'a fragment \<Rightarrow> VariableWithCount \<Rightarrow> 'a Multiset" where
  "binding fragment var = (case fragment (name var) of None \<Rightarrow> [] | Some ms \<Rightarrow> ms)"

definition exact_partition :: "'a Multiset \<Rightarrow> VariableWithCount list \<Rightarrow> 'a fragment \<Rightarrow> bool" where
  "exact_partition values variables fragment \<longleftrightarrow>
     (\<forall>var \<in> set variables.
        \<exists>ms. fragment (name var) = Some ms \<and> minimum var \<le> len ms
           \<and> (\<forall>x. 0 \<le> multiplicity ms x))
     \<and> (\<forall>x. (\<Sum>var\<leftarrow>variables. count var * multiplicity (binding fragment var) x)
              = multiplicity values x)"

text \<open>
  The invariant of the multiset class for the list of its items: no element twice, every
  multiplicity positive.
\<close>

definition is_multiset :: "'a Multiset \<Rightarrow> bool" where
  "is_multiset ms \<longleftrightarrow> distinct (map fst ms) \<and> list_all (\<lambda>(x, n). 0 < n) ms"

text \<open>
  The invariant of the dictionary while the chain runs, for the values whose generators
  are alive (\<open>settled\<close>): every variable has its multiset, the multiplicities of a
  settled value add up, and a value that is not in the input occurs nowhere. The
  multiplicities of the other values of the input are left over from earlier rounds and
  are overwritten before the next yield.
\<close>

definition chain_invariant ::
  "'a Multiset \<Rightarrow> VariableWithCount list \<Rightarrow> 'a set \<Rightarrow> 'a fragment \<Rightarrow> bool" where
  "chain_invariant values variables settled subst \<longleftrightarrow>
     subst None = None
     \<and> (\<forall>var \<in> set variables. \<exists>ms. subst (name var) = Some ms \<and> (\<forall>y. 0 \<le> multiplicity ms y))
     \<and> (\<forall>y \<in> settled.
           (\<Sum>var\<leftarrow>variables. count var * multiplicity (binding subst var) y) = multiplicity values y)
     \<and> (\<forall>y. y \<notin> fst ` set values \<longrightarrow>
           (\<forall>var \<in> set variables. multiplicity (binding subst var) y = 0))"

section \<open>Verification of the Diophantine solver\<close>

lemma extended_euclid_zero: "extended_euclid a 0 = (1, 0, a)"
  by (simp add: extended_euclid.simps [of a 0])

lemma extended_euclid_step:
  "b \<noteq> 0 \<Longrightarrow> extended_euclid a b =
     (case extended_euclid b (a mod b) of (x0, y0, d) \<Rightarrow> (y0, x0 - (a div b) * y0, d))"
  by (simp add: extended_euclid.simps [of a b])

lemma extended_euclid_bezout:
  "extended_euclid a b = (x, y, d) \<Longrightarrow> a * x + b * y = d"
proof (induction a b arbitrary: x y d rule: extended_euclid.induct)
  case (1 a b)
  show ?case
  proof (cases "b = 0")
    case True
    with "1.prems" show ?thesis by (simp add: extended_euclid_zero)
  next
    case False
    obtain x0 y0 d0 where r: "extended_euclid b (a mod b) = (x0, y0, d0)"
      by (cases "extended_euclid b (a mod b)") auto
    from "1.IH" [OF False r] have ih: "b * x0 + (a mod b) * y0 = d0" .
    from "1.prems" False r have xy: "x = y0 \<and> y = x0 - (a div b) * y0 \<and> d = d0"
      by (auto simp add: extended_euclid_step)
    have "a mod b = a - b * (a div b)" by (simp add: minus_mult_div_eq_mod)
    with ih have e: "b * x0 + (a - b * (a div b)) * y0 = d0" by simp
    from xy have "a * x + b * y = a * y0 + b * (x0 - (a div b) * y0)" by simp
    also have "\<dots> = b * x0 + (a - b * (a div b)) * y0" by (simp add: algebra_simps)
    also note e
    finally show ?thesis using xy by simp
  qed
qed

lemma extended_euclid_gcd:
  "0 \<le> a \<Longrightarrow> 0 \<le> b \<Longrightarrow> snd (snd (extended_euclid a b)) = gcd a b"
proof (induction a b rule: extended_euclid.induct)
  case (1 a b)
  show ?case
  proof (cases "b = 0")
    case True
    with "1.prems" show ?thesis by (simp add: extended_euclid_zero)
  next
    case False
    with "1.prems" have "0 \<le> a mod b" by simp
    with "1.IH" [OF False] "1.prems" have "snd (snd (extended_euclid b (a mod b))) = gcd b (a mod b)"
      by simp
    moreover have "gcd b (a mod b) = gcd a b"
      by (metis gcd.commute gcd_red_int)
    ultimately show ?thesis using False
      by (cases "extended_euclid b (a mod b)") (simp add: extended_euclid_step)
  qed
qed

lemma extended_euclid_example: "extended_euclid 42 12 = (1, -3, 6)"
  by (simp add: extended_euclid.simps)

lemma ascend_loop:
  assumes a: "0 < a"
  shows "(\<forall>t<n. 0 \<le> y - a * int t) \<Longrightarrow> y - a * int n < 0 \<Longrightarrow>
     while_option (\<lambda>(x, y, out). 0 \<le> y)
        (\<lambda>(x, y, out). (x + b, y - a, if 0 \<le> x then out @ [(x, y)] else out)) (x, y, out)
     = Some (x + b * int n, y - a * int n,
         out @ filter (\<lambda>(x, y). 0 \<le> x) (map (\<lambda>t. (x + b * int t, y - a * int t)) [0..<n]))"
proof (induction n arbitrary: x y out)
  case 0
  then show ?case by (subst while_option_unfold) simp
next
  case (Suc n)
  from Suc.prems(1) have y: "0 \<le> y" by force
  have p1: "\<forall>t<n. 0 \<le> (y - a) - a * int t"
  proof (intro allI impI)
    fix t assume "t < n"
    then have "Suc t < Suc n" by simp
    with Suc.prems(1) have "0 \<le> y - a * int (Suc t)" by blast
    then show "0 \<le> (y - a) - a * int t" by (simp add: algebra_simps)
  qed
  from Suc.prems(2) have p2: "(y - a) - a * int n < 0" by (simp add: algebra_simps)
  have m: "map (\<lambda>t. (x + b * int t, y - a * int t)) [0..<Suc n]
        = (x, y) # map (\<lambda>t. (x + b + b * int t, y - a - a * int t)) [0..<n]"
    by (simp only: upt_conv_Cons [of 0 "Suc n"] map_Suc_upt [symmetric])
       (simp add: algebra_simps)
  show ?case
    by (subst while_option_unfold)
       (simp add: y Suc.IH [OF p1 p2] m algebra_simps del: upt_Suc)
qed

lemma descend_loop:
  assumes b: "0 < b"
  shows "(\<forall>t<n. 0 \<le> x - b * int t) \<Longrightarrow> x - b * int n < 0 \<Longrightarrow>
     while_option (\<lambda>(x, y, out). 0 \<le> x)
        (\<lambda>(x, y, out). (x - b, y + a, if 0 \<le> y then out @ [(x, y)] else out)) (x, y, out)
     = Some (x - b * int n, y + a * int n,
         out @ filter (\<lambda>(x, y). 0 \<le> y) (map (\<lambda>t. (x - b * int t, y + a * int t)) [0..<n]))"
proof (induction n arbitrary: x y out)
  case 0
  then show ?case by (subst while_option_unfold) simp
next
  case (Suc n)
  from Suc.prems(1) have x: "0 \<le> x" by force
  have p1: "\<forall>t<n. 0 \<le> (x - b) - b * int t"
  proof (intro allI impI)
    fix t assume "t < n"
    then have "Suc t < Suc n" by simp
    with Suc.prems(1) have "0 \<le> x - b * int (Suc t)" by blast
    then show "0 \<le> (x - b) - b * int t" by (simp add: algebra_simps)
  qed
  from Suc.prems(2) have p2: "(x - b) - b * int n < 0" by (simp add: algebra_simps)
  have m: "map (\<lambda>t. (x - b * int t, y + a * int t)) [0..<Suc n]
        = (x, y) # map (\<lambda>t. (x - b - b * int t, y + a + a * int t)) [0..<n]"
    by (simp only: upt_conv_Cons [of 0 "Suc n"] map_Suc_upt [symmetric])
       (simp add: algebra_simps)
  show ?case
    by (subst while_option_unfold)
       (simp add: x Suc.IH [OF p1 p2] m algebra_simps del: upt_Suc)
qed

text \<open>The number of rounds of a loop that starts at \<open>y\<close> and steps down by \<open>a\<close>.\<close>

lemma rounds:
  assumes "0 < (a::int)"
  shows "(\<forall>t < nat (y div a + 1). 0 \<le> y - a * int t) \<and> y - a * int (nat (y div a + 1)) < 0"
proof (cases "0 \<le> y")
  case True
  with assms have q: "0 \<le> y div a" by (simp add: pos_imp_zdiv_nonneg_iff)
  have e: "y = a * (y div a) + y mod a" by simp
  have m: "0 \<le> y mod a" "y mod a < a" using assms by simp_all
  from e m have lo: "a * (y div a) \<le> y" and hi: "y < a * (y div a) + a" by linarith+
  have "0 \<le> y - a * int t" if "t < nat (y div a + 1)" for t
  proof -
    from that q have "int t \<le> y div a" by simp
    with assms have "a * int t \<le> a * (y div a)" by (simp add: mult_left_mono)
    with lo show ?thesis by simp
  qed
  moreover have "y - a * int (nat (y div a + 1)) < 0"
    using q hi by (simp add: algebra_simps)
  ultimately show ?thesis by blast
next
  case False
  with assms have "y div a < 0" by (simp add: div_neg_pos_less0)
  with False show ?thesis by simp
qed

lemma ascend_eq:
  assumes "0 < a"
  shows "ascend a b x y = filter (\<lambda>(x, y). 0 \<le> x)
           (map (\<lambda>t. (x + b * int t, y - a * int t)) [0..<nat (y div a + 1)])"
  using ascend_loop [OF assms, of "nat (y div a + 1)" y b x "[]"] rounds [OF assms, of y]
  by (simp add: ascend_def while_def)

lemma descend_eq:
  assumes "0 < b"
  shows "descend a b x y = filter (\<lambda>(x, y). 0 \<le> y)
           (map (\<lambda>t. (x - b * int t, y + a * int t)) [0..<nat (x div b + 1)])"
  using descend_loop [OF assms, of "nat (x div b + 1)" x a y "[]"] rounds [OF assms, of x]
  by (simp add: descend_def while_def)

lemma below_rounds:
  assumes "0 < (a::int)" "0 \<le> t" "0 \<le> y - a * t"
  shows "nat t < nat (y div a + 1)"
proof (rule ccontr)
  assume "\<not> nat t < nat (y div a + 1)"
  then have "int (nat (y div a + 1)) \<le> t" using assms(2) by linarith
  with assms(1) have "a * int (nat (y div a + 1)) \<le> a * t" by (simp add: mult_left_mono)
  with rounds [OF assms(1), of y] assms(3) show False by linarith
qed

lemma ascend_member:
  assumes "0 < a"
  shows "(X, Y) \<in> set (ascend a b x y) \<longleftrightarrow>
         (\<exists>t. 0 \<le> t \<and> X = x + b * t \<and> Y = y - a * t \<and> 0 \<le> X \<and> 0 \<le> Y)"
proof
  assume "(X, Y) \<in> set (ascend a b x y)"
  then obtain n where n: "n < nat (y div a + 1)" "X = x + b * int n" "Y = y - a * int n" "0 \<le> X"
    by (auto simp: ascend_eq [OF assms])
  with rounds [OF assms, of y] have "0 \<le> Y" by blast
  with n show "\<exists>t. 0 \<le> t \<and> X = x + b * t \<and> Y = y - a * t \<and> 0 \<le> X \<and> 0 \<le> Y"
    by (intro exI [of _ "int n"]) simp
next
  assume "\<exists>t. 0 \<le> t \<and> X = x + b * t \<and> Y = y - a * t \<and> 0 \<le> X \<and> 0 \<le> Y"
  then obtain t where t: "0 \<le> t" "X = x + b * t" "Y = y - a * t" "0 \<le> X" "0 \<le> Y" by blast
  then have "nat t \<in> set [0..<nat (y div a + 1)]"
    using below_rounds [OF assms, of t y] by simp
  moreover have "(X, Y) = (x + b * int (nat t), y - a * int (nat t))" using t by simp
  ultimately have "(X, Y) \<in> (\<lambda>t. (x + b * int t, y - a * int t)) ` set [0..<nat (y div a + 1)]"
    by (rule image_eqI [rotated])
  with t(4) show "(X, Y) \<in> set (ascend a b x y)"
    by (simp add: ascend_eq [OF assms] del: set_upt)
qed

lemma descend_member:
  assumes "0 < b"
  shows "(X, Y) \<in> set (descend a b x y) \<longleftrightarrow>
         (\<exists>t. 0 \<le> t \<and> X = x - b * t \<and> Y = y + a * t \<and> 0 \<le> X \<and> 0 \<le> Y)"
proof
  assume "(X, Y) \<in> set (descend a b x y)"
  then obtain n where n: "n < nat (x div b + 1)" "X = x - b * int n" "Y = y + a * int n" "0 \<le> Y"
    by (auto simp: descend_eq [OF assms])
  with rounds [OF assms, of x] have "0 \<le> X" by blast
  with n show "\<exists>t. 0 \<le> t \<and> X = x - b * t \<and> Y = y + a * t \<and> 0 \<le> X \<and> 0 \<le> Y"
    by (intro exI [of _ "int n"]) simp
next
  assume "\<exists>t. 0 \<le> t \<and> X = x - b * t \<and> Y = y + a * t \<and> 0 \<le> X \<and> 0 \<le> Y"
  then obtain t where t: "0 \<le> t" "X = x - b * t" "Y = y + a * t" "0 \<le> X" "0 \<le> Y" by blast
  then have "nat t \<in> set [0..<nat (x div b + 1)]"
    using below_rounds [OF assms, of t x] by simp
  moreover have "(X, Y) = (x - b * int (nat t), y + a * int (nat t))" using t by simp
  ultimately have "(X, Y) \<in> (\<lambda>t. (x - b * int t, y + a * int t)) ` set [0..<nat (x div b + 1)]"
    by (rule image_eqI [rotated])
  with t(5) show "(X, Y) \<in> set (descend a b x y)"
    by (simp add: descend_eq [OF assms] del: set_upt)
qed

lemma ascend_distinct: "0 < a \<Longrightarrow> distinct (ascend a b x y)"
  by (auto simp: ascend_eq distinct_map intro!: distinct_filter inj_onI)

lemma descend_distinct: "0 < b \<Longrightarrow> distinct (descend a b x y)"
  by (auto simp: descend_eq distinct_map intro!: distinct_filter inj_onI)

lemma line_solutions:
  assumes "a * x0 + b * y0 = (1::int)"
  shows "a * X + b * Y = c \<longleftrightarrow> (\<exists>t. X = c * x0 + b * t \<and> Y = c * y0 - a * t)"
proof
  assume e: "a * X + b * Y = c"
  have "X = X * (a * x0 + b * y0)" "Y = Y * (a * x0 + b * y0)" using assms by simp_all
  then have "X = c * x0 + b * (y0 * X - x0 * Y)" "Y = c * y0 - a * (y0 * X - x0 * Y)"
    unfolding e [symmetric] by (simp_all add: algebra_simps)
  then show "\<exists>t. X = c * x0 + b * t \<and> Y = c * y0 - a * t" by blast
next
  assume "\<exists>t. X = c * x0 + b * t \<and> Y = c * y0 - a * t"
  then obtain t where t: "X = c * x0 + b * t" "Y = c * y0 - a * t" by blast
  have "a * (c * x0 + b * t) + b * (c * y0 - a * t) = c * (a * x0 + b * y0)"
    by (simp add: algebra_simps)
  with assms t show "a * X + b * Y = c" by simp
qed

lemma normalizer_pos: "0 < a \<Longrightarrow> 0 < gcd (a::int) (gcd b c)"
  by (metis gcd_pos_int less_le)

lemma same_sign_bezout:
  assumes a: "0 < (a::int)" and b: "0 < b" and bez: "a * x0 + b * y0 = 1"
    and x: "0 < c * x0" and y: "0 < c * y0"
  shows False
proof (cases "0 < c")
  case True
  with x y have "0 < x0" "0 < y0" by (simp_all add: zero_less_mult_iff)
  then have "1 \<le> x0" "1 \<le> y0" by simp_all
  with a b have "a \<le> a * x0" "b \<le> b * y0"
    using mult_left_mono [of 1 x0 a] mult_left_mono [of 1 y0 b] by simp_all
  with a b bez show False by linarith
next
  case False
  with x y have "x0 < 0" "y0 < 0" by (auto simp: zero_less_mult_iff)
  then have "x0 \<le> -1" "y0 \<le> -1" by simp_all
  with a b have "a * x0 \<le> - a" "b * y0 \<le> - b"
    using mult_left_mono [of x0 "-1" a] mult_left_mono [of y0 "-1" b] by simp_all
  with a b bez show False by linarith
qed

lemma coprime_walk:
  assumes a: "0 < (a::int)" and b: "0 < b" and bez: "a * x0 + b * y0 = 1"
  shows "distinct (if c * x0 \<le> 0 then ascend a b (c * x0) (c * y0) else descend a b (c * x0) (c * y0))"
    and "set (if c * x0 \<le> 0 then ascend a b (c * x0) (c * y0) else descend a b (c * x0) (c * y0))
         = {(X, Y). 0 \<le> X \<and> 0 \<le> Y \<and> a * X + b * Y = c}"
proof -
  show "distinct (if c * x0 \<le> 0 then ascend a b (c * x0) (c * y0) else descend a b (c * x0) (c * y0))"
    using a b by (simp add: ascend_distinct descend_distinct)
  show "set (if c * x0 \<le> 0 then ascend a b (c * x0) (c * y0) else descend a b (c * x0) (c * y0))
         = {(X, Y). 0 \<le> X \<and> 0 \<le> Y \<and> a * X + b * Y = c}"
  proof (cases "c * x0 \<le> 0")
    case True
    have "(X, Y) \<in> set (ascend a b (c * x0) (c * y0)) \<longleftrightarrow> 0 \<le> X \<and> 0 \<le> Y \<and> a * X + b * Y = c"
      for X Y
    proof
      assume "(X, Y) \<in> set (ascend a b (c * x0) (c * y0))"
      then obtain t where "X = c * x0 + b * t" "Y = c * y0 - a * t" "0 \<le> X" "0 \<le> Y"
        using ascend_member [OF a] by blast
      then show "0 \<le> X \<and> 0 \<le> Y \<and> a * X + b * Y = c"
        using line_solutions [OF bez, of X Y c] by blast
    next
      assume s: "0 \<le> X \<and> 0 \<le> Y \<and> a * X + b * Y = c"
      then obtain t where t: "X = c * x0 + b * t" "Y = c * y0 - a * t"
        using line_solutions [OF bez, of X Y c] by blast
      have "0 \<le> t"
      proof (rule ccontr)
        assume "\<not> 0 \<le> t"
        then have "t \<le> -1" by simp
        with b have "b * t \<le> - b" using mult_left_mono [of t "-1" b] by simp
        moreover from t s have "0 \<le> c * x0 + b * t" by simp
        ultimately show False using b True by linarith
      qed
      with t s show "(X, Y) \<in> set (ascend a b (c * x0) (c * y0))"
        using ascend_member [OF a] by blast
    qed
    with True show ?thesis by auto
  next
    case False
    have "(X, Y) \<in> set (descend a b (c * x0) (c * y0)) \<longleftrightarrow> 0 \<le> X \<and> 0 \<le> Y \<and> a * X + b * Y = c"
      for X Y
    proof
      assume "(X, Y) \<in> set (descend a b (c * x0) (c * y0))"
      then obtain t where "X = c * x0 - b * t" "Y = c * y0 + a * t" "0 \<le> X" "0 \<le> Y"
        using descend_member [OF b] by blast
      then have "X = c * x0 + b * (- t)" "Y = c * y0 - a * (- t)" "0 \<le> X" "0 \<le> Y" by simp_all
      then show "0 \<le> X \<and> 0 \<le> Y \<and> a * X + b * Y = c"
        using line_solutions [OF bez, of X Y c] by blast
    next
      assume s: "0 \<le> X \<and> 0 \<le> Y \<and> a * X + b * Y = c"
      then obtain t where t: "X = c * x0 + b * t" "Y = c * y0 - a * t"
        using line_solutions [OF bez, of X Y c] by blast
      have "t \<le> 0"
      proof (rule ccontr)
        assume "\<not> t \<le> 0"
        then have "1 \<le> t" by simp
        with a have "a \<le> a * t" using mult_left_mono [of 1 t a] by simp
        moreover from t s have "0 \<le> c * y0 - a * t" by simp
        ultimately have "0 < c * y0" using a by linarith
        with False same_sign_bezout [OF a b bez, of c] show False by simp
      qed
      then have "0 \<le> - t" by simp
      moreover from t have "X = c * x0 - b * (- t)" "Y = c * y0 + a * (- t)" by simp_all
      ultimately show "(X, Y) \<in> set (descend a b (c * x0) (c * y0))"
        using s descend_member [OF b, of X Y a "c * x0" "c * y0"] by blast
    qed
    with False show ?thesis by auto
  qed
qed

lemma base_solution_linear_correct:
  assumes a: "0 < a" and b: "0 < b"
  shows "snd (base_solution_linear a b c) = None
       \<and> distinct (fst (base_solution_linear a b c))
       \<and> set (fst (base_solution_linear a b c)) = {(x, y). 0 \<le> x \<and> 0 \<le> y \<and> a * x + b * y = c}"
proof -
  define d where "d = gcd a (gcd b c)"
  define a' b' c' where "a' = a div d" and "b' = b div d" and "c' = c div d"
  have d: "0 < d" unfolding d_def using a by (rule normalizer_pos)
  have "d dvd a" unfolding d_def by (rule gcd_dvd1)
  moreover have "d dvd gcd b c" unfolding d_def by (rule gcd_dvd2)
  then have "d dvd b" "d dvd c" by (blast intro: dvd_trans gcd_dvd1 gcd_dvd2)+
  ultimately have "d dvd a" "d dvd b" "d dvd c" by blast+
  then have split: "a = d * a'" "b = d * b'" "c = d * c'"
    by (simp_all add: a'_def b'_def c'_def)
  from a b d split have a': "0 < a'" and b': "0 < b'" by (simp_all add: zero_less_mult_iff)
  have eqn: "a * x + b * y = c \<longleftrightarrow> a' * x + b' * y = c'" for x y
  proof -
    have "a * x + b * y = d * (a' * x + b' * y)" by (simp add: split algebra_simps)
    with d show ?thesis by (simp add: split(3))
  qed
  obtain x0 y0 g where ee: "extended_euclid a' b' = (x0, y0, g)"
    by (cases "extended_euclid a' b'") auto
  from extended_euclid_gcd [of a' b'] a' b' ee have g: "g = gcd a' b'" by simp
  from extended_euclid_bezout [OF ee] have bez: "a' * x0 + b' * y0 = g" .
  have unf: "base_solution_linear a b c =
      (if c' = 0 then ([(0, 0)], None)
       else if c' mod g \<noteq> 0 then ([], None)
       else (if c' * x0 \<le> 0 then ascend a' b' (c' * x0) (c' * y0)
             else descend a' b' (c' * x0) (c' * y0), None))"
    using a b ee
    by (simp add: base_solution_linear_def Let_def d_def [symmetric] a'_def [symmetric]
          b'_def [symmetric] c'_def [symmetric])
  show ?thesis
  proof (cases "c' = 0")
    case True
    have "0 \<le> x \<and> 0 \<le> y \<and> a' * x + b' * y = 0 \<longleftrightarrow> x = 0 \<and> y = 0" for x y
    proof
      assume h: "0 \<le> x \<and> 0 \<le> y \<and> a' * x + b' * y = 0"
      with a' b' have "0 \<le> a' * x" "0 \<le> b' * y" by simp_all
      with h have "a' * x = 0" "b' * y = 0" by linarith+
      with a' b' show "x = 0 \<and> y = 0" by simp
    qed simp
    with True show ?thesis by (auto simp: unf eqn)
  next
    case c0: False
    show ?thesis
    proof (cases "c' mod g = 0")
      case False
      have "a' * x + b' * y \<noteq> c'" for x y
      proof
        assume "a' * x + b' * y = c'"
        moreover have "g dvd a' * x + b' * y" by (simp add: g)
        ultimately show False using False by (simp add: dvd_eq_mod_eq_0)
      qed
      with c0 False show ?thesis by (simp add: unf eqn)
    next
      case True
      then have "g dvd c'" by (simp add: dvd_eq_mod_eq_0)
      moreover have "g dvd a'" "g dvd b'" by (simp_all add: g)
      ultimately have "d * g dvd a" "d * g dvd b" "d * g dvd c" by (simp_all add: split)
      then have "d * g dvd d" unfolding d_def by (simp del: gcd.assoc)
      then have "d * g dvd d * 1" by simp
      with d have "g dvd 1" by (simp only: dvd_mult_cancel_left) simp
      moreover have "0 \<le> g" by (simp add: g)
      ultimately have "g = 1" by simp
      with bez have bez1: "a' * x0 + b' * y0 = 1" by simp
      from c0 True \<open>g = 1\<close> coprime_walk [OF a' b' bez1, of c'] show ?thesis
        by (simp add: unf eqn)
    qed
  qed
qed

lemma base_solution_linear_raises:
  "snd (base_solution_linear a b c) = Some ValueError \<longleftrightarrow> a \<le> 0 \<or> b \<le> 0"
proof (cases "a \<le> 0 \<or> b \<le> 0")
  case True
  then show ?thesis by (simp add: base_solution_linear_def)
next
  case False
  with base_solution_linear_correct [of a b c] show ?thesis by simp
qed

lemma fold_gcd_dvd:
  "fold (\<lambda>coeff g. gcd g coeff) xs (g0::int) dvd g0
   \<and> (\<forall>x\<in>set xs. fold (\<lambda>coeff g. gcd g coeff) xs g0 dvd x)"
proof (induction xs arbitrary: g0)
  case Nil
  show ?case by simp
next
  case (Cons x xs)
  from Cons.IH [of "gcd g0 x"] show ?case
    by (auto intro: dvd_trans [OF _ gcd_dvd1] dvd_trans [OF _ gcd_dvd2])
qed

lemma fold_gcd_pos: "0 < g0 \<Longrightarrow> 0 < fold (\<lambda>coeff g. gcd g coeff) xs (g0::int)"
proof (induction xs arbitrary: g0)
  case Nil
  then show ?case by simp
next
  case (Cons x xs)
  from Cons.prems have "0 < gcd g0 x" by (metis gcd_pos_int less_le)
  with Cons.IH show ?case by simp
qed

lemma remainder_gcd_props:
  assumes "3 \<le> length coeffs" "\<forall>c\<in>set coeffs. 0 < c"
  shows "0 < remainder_gcd coeffs" and "\<forall>c\<in>set (tl coeffs). remainder_gcd coeffs dvd c"
proof -
  from assms(1) obtain c0 c1 c2 rest where cs: "coeffs = c0 # c1 # c2 # rest"
    by (cases coeffs; cases "tl coeffs"; cases "tl (tl coeffs)") auto
  with assms(2) have "0 < gcd c1 c2" by (metis gcd_pos_int less_le list.set_intros)
  then show "0 < remainder_gcd coeffs" by (simp add: remainder_gcd_def cs fold_gcd_pos)
  let ?g = "fold (\<lambda>coeff g. gcd g coeff) rest (gcd c1 c2)"
  from fold_gcd_dvd [of rest "gcd c1 c2"]
  have "?g dvd gcd c1 c2" "\<forall>x\<in>set rest. ?g dvd x" by blast+
  then have "?g dvd c1" "?g dvd c2" "\<forall>x\<in>set rest. ?g dvd x"
    by (blast intro: dvd_trans gcd_dvd1 gcd_dvd2)+
  then show "\<forall>c\<in>set (tl coeffs). remainder_gcd coeffs dvd c"
    by (simp add: remainder_gcd_def cs)
qed

lemma weighted_sum_Cons [simp]:
  "weighted_sum (c # cs) (x # xs) = c * x + weighted_sum cs xs"
  by (simp add: weighted_sum_def)

lemma weighted_sum_Nil [simp]: "weighted_sum [] xs = 0" "weighted_sum cs [] = 0"
  by (simp_all add: weighted_sum_def)

lemma weighted_sum_div:
  "length xs = length cs \<Longrightarrow> \<forall>c\<in>set cs. g dvd c \<Longrightarrow>
   weighted_sum cs xs = g * weighted_sum (map (\<lambda>c. c div g) cs) xs"
proof (induction xs cs rule: list_induct2)
  case Nil
  show ?case by simp
next
  case (Cons x xs c cs)
  then show ?case by (simp add: algebra_simps)
qed

lemma weighted_sum_nonneg:
  "length xs = length cs \<Longrightarrow> \<forall>c\<in>set cs. 0 \<le> c \<Longrightarrow> list_all (\<lambda>x. 0 \<le> x) xs \<Longrightarrow>
   0 \<le> weighted_sum cs xs"
proof (induction xs cs rule: list_induct2)
  case Nil
  show ?case by simp
next
  case (Cons x xs c cs)
  then show ?case by simp
qed

lemma fold_no_error:
  "\<forall>(x, y)\<in>set pairs. snd (g y) = None \<Longrightarrow>
   fold (\<lambda>(x, y) (solutions, stop).
           if stop \<noteq> None then (solutions, stop)
           else (case g y of (rs, e) \<Rightarrow> (solutions @ map ((#) x) rs, e)))
        pairs (acc, None)
   = (acc @ concat (map (\<lambda>(x, y). map ((#) x) (fst (g y))) pairs), None)"
proof (induction pairs arbitrary: acc)
  case Nil
  show ?case by simp
next
  case (Cons p pairs)
  obtain x y where p: "p = (x, y)" by (cases p)
  obtain rs e where g: "g y = (rs, e)" by (cases "g y")
  with Cons.prems p have e: "e = None" by simp
  from Cons.prems have "\<forall>(x, y)\<in>set pairs. snd (g y) = None" by simp
  from Cons.IH [OF this, of "acc @ map ((#) x) rs"] show ?case
    by (simp add: p g e)
qed

lemma distinct_heads:
  "distinct (map fst pairs) \<Longrightarrow> \<forall>p\<in>set pairs. distinct (f p) \<Longrightarrow>
   distinct (concat (map (\<lambda>p. map ((#) (fst p)) (f p)) pairs))"
proof (induction pairs)
  case Nil
  show ?case by simp
next
  case (Cons p pairs)
  then show ?case by (auto simp: distinct_map)
qed

lemma solve_uncached_two:
  "solve_uncached t [a, b] =
     (map (\<lambda>(x, y). [x, y]) (fst (base_solution_linear a b t)), snd (base_solution_linear a b t))"
  by (simp add: solve_uncached.simps [of t "[a, b]"] split: prod.splits)

lemma solve_uncached_many:
  assumes "3 \<le> length coeffs"
  shows "solve_uncached t coeffs =
     (case base_solution_linear (coeffs ! 0) (remainder_gcd coeffs) t of
        (pairs, raised) \<Rightarrow>
          (case fold (\<lambda>(x, y) (solutions, stop).
                        if stop \<noteq> None then (solutions, stop)
                        else
                          (case solve_uncached y
                                  (map (\<lambda>c. c div remainder_gcd coeffs) (tl coeffs)) of
                             (rs, e) \<Rightarrow> (solutions @ map ((#) x) rs, e)))
                     pairs ([], None) of
             (solutions, stop) \<Rightarrow>
               (case stop of
                  Some e \<Rightarrow> (solutions, Some e)
                | None \<Rightarrow> (solutions, raised))))"
proof -
  from assms have n: "length coeffs \<noteq> 0" "length coeffs \<noteq> 1" "length coeffs \<noteq> 2"
    by auto
  show ?thesis by (subst solve_uncached.simps) (simp only: n if_False)
qed

lemma is_solution_two:
  "is_solution t [a, b] xs \<longleftrightarrow> (\<exists>x y. xs = [x, y] \<and> 0 \<le> x \<and> 0 \<le> y \<and> a * x + b * y = t)"
proof (cases xs)
  case Nil
  then show ?thesis by (simp add: is_solution_def)
next
  case (Cons x ys)
  then show ?thesis by (cases ys; cases "tl ys") (auto simp: is_solution_def)
qed

lemma is_solution_Cons:
  "is_solution t (c # cs) xs \<longleftrightarrow>
     (\<exists>x ys. xs = x # ys \<and> 0 \<le> x \<and> length ys = length cs \<and> list_all (\<lambda>x. 0 \<le> x) ys
        \<and> c * x + weighted_sum cs ys = t)"
  by (cases xs) (auto simp: is_solution_def)

lemma solve_uncached_correct:
  assumes "2 \<le> length coeffs" "\<forall>c\<in>set coeffs. 0 < c"
  shows "snd (solve_uncached t coeffs) = None
       \<and> distinct (fst (solve_uncached t coeffs))
       \<and> set (fst (solve_uncached t coeffs)) = {xs. is_solution t coeffs xs}"
  using assms
proof (induction "length coeffs" arbitrary: coeffs t)
  case 0
  then show ?case by simp
next
  case (Suc n)
  show ?case
  proof (cases "length coeffs = 2")
    case True
    then obtain a b where cs: "coeffs = [a, b]"
      by (cases coeffs; cases "tl coeffs") auto
    with Suc.prems have ab: "0 < a" "0 < b" by simp_all
    note bsl = base_solution_linear_correct [OF ab, of t]
    have "inj_on (\<lambda>(x, y). [x, y :: int]) A" for A by (auto simp: inj_on_def)
    then have "distinct (map (\<lambda>(x, y). [x, y]) (fst (base_solution_linear a b t)))"
      using bsl by (simp add: distinct_map)
    moreover have "set (map (\<lambda>(x, y). [x, y]) (fst (base_solution_linear a b t)))
        = {xs. is_solution t [a, b] xs}"
      using bsl by (auto simp: is_solution_two image_iff)
    ultimately show ?thesis using bsl by (simp add: cs solve_uncached_two)
  next
    case False
    with Suc.prems have len: "3 \<le> length coeffs" by simp
    then obtain c0 rest where cs: "coeffs = c0 # rest" by (cases coeffs) auto
    define g where "g = remainder_gcd coeffs"
    define nc where "nc = map (\<lambda>c. c div g) (tl coeffs)"
    have hd_tl: "coeffs ! 0 = c0" "tl coeffs = rest" by (simp_all add: cs)
    from remainder_gcd_props [OF len Suc.prems(2)]
    have g: "0 < g" and gdvd: "\<forall>c\<in>set rest. g dvd c" by (simp_all add: g_def cs)
    from Suc.prems(2) cs have c0: "0 < c0" by simp
    have ncpos: "\<forall>c\<in>set nc. 0 < c"
    proof
      fix c assume "c \<in> set nc"
      then obtain c' where c': "c' \<in> set rest" "c = c' div g" by (auto simp: nc_def hd_tl)
      with gdvd Suc.prems(2) cs have "g dvd c'" "0 < c'" by simp_all
      with g show "0 < c" unfolding c'(2) by (simp add: pos_imp_zdiv_pos_iff zdvd_imp_le)
    qed
    have nclen: "length nc = n" "2 \<le> length nc"
      using Suc.hyps(2) len by (simp_all add: nc_def)
    note IH = Suc.hyps(1) [OF nclen(1) [symmetric] nclen(2) ncpos]
    note bsl = base_solution_linear_correct [OF c0 g, of t]
    define pairs where "pairs = fst (base_solution_linear c0 g t)"
    have unf: "solve_uncached t coeffs =
        (concat (map (\<lambda>(x, y). map ((#) x) (fst (solve_uncached y nc))) pairs), None)"
    proof -
      have bs: "base_solution_linear c0 g t = (pairs, None)"
        using bsl by (simp add: pairs_def prod_eq_iff)
      have "\<forall>(x, y)\<in>set pairs. snd (solve_uncached y nc) = None" using IH by simp
      from fold_no_error [of pairs "\<lambda>y. solve_uncached y nc", OF this, of "[]"]
      show ?thesis
        unfolding solve_uncached_many [OF len] g_def [symmetric] nc_def [symmetric] hd_tl(1) bs
        by simp
    qed
    have fsts: "distinct (map fst pairs)"
    proof -
      have "inj_on fst (set pairs)"
      proof (rule inj_onI)
        fix p q assume "p \<in> set pairs" "q \<in> set pairs" "fst p = fst q"
        with bsl have "c0 * fst p + g * snd p = t" "c0 * fst q + g * snd q = t" "fst p = fst q"
          by (auto simp: pairs_def)
        then have "c0 * fst q + g * snd p = c0 * fst q + g * snd q" by simp
        then have "g * snd p = g * snd q" by (rule add_left_imp_eq)
        with g have "snd p = snd q" by simp
        with \<open>fst p = fst q\<close> show "p = q" by (simp add: prod_eq_iff)
      qed
      with bsl show ?thesis by (simp add: distinct_map pairs_def)
    qed
    have "distinct (concat (map (\<lambda>p. map ((#) (fst p)) (fst (solve_uncached (snd p) nc))) pairs))"
      using fsts IH by (intro distinct_heads) simp_all
    then have d: "distinct (fst (solve_uncached t coeffs))"
      by (simp add: unf case_prod_unfold)
    have "xs \<in> set (fst (solve_uncached t coeffs)) \<longleftrightarrow> is_solution t coeffs xs" for xs
    proof
      assume "xs \<in> set (fst (solve_uncached t coeffs))"
      then obtain x y ys where m: "(x, y) \<in> set pairs" "ys \<in> set (fst (solve_uncached y nc))"
          "xs = x # ys"
        by (auto simp: unf)
      from m(1) bsl have xy: "0 \<le> x" "0 \<le> y" "c0 * x + g * y = t" by (auto simp: pairs_def)
      from m(2) IH have ys: "is_solution y nc ys" by simp
      then have "length ys = length rest" by (simp add: is_solution_def nc_def hd_tl)
      from weighted_sum_div [OF this gdvd] ys have "weighted_sum rest ys = g * y"
        by (simp add: is_solution_def nc_def hd_tl)
      with xy ys m(3) \<open>length ys = length rest\<close> show "is_solution t coeffs xs"
        by (simp add: cs is_solution_Cons) (simp add: is_solution_def)
    next
      assume "is_solution t coeffs xs"
      then obtain x ys where s: "xs = x # ys" "0 \<le> x" "length ys = length rest"
          "list_all (\<lambda>x. 0 \<le> x) ys" "c0 * x + weighted_sum rest ys = t"
        by (auto simp: cs is_solution_Cons)
      define y where "y = weighted_sum nc ys"
      from weighted_sum_div [OF s(3) gdvd] have w: "weighted_sum rest ys = g * y"
        by (simp add: y_def nc_def hd_tl)
      have "0 \<le> y" unfolding y_def
        using s(3,4) ncpos by (intro weighted_sum_nonneg) (auto simp: nc_def hd_tl intro: less_imp_le)
      with s w bsl have "(x, y) \<in> set pairs" by (simp add: pairs_def)
      moreover have "is_solution y nc ys" using s by (simp add: is_solution_def y_def nc_def hd_tl)
      with IH have "ys \<in> set (fst (solve_uncached y nc))" by simp
      ultimately show "xs \<in> set (fst (solve_uncached t coeffs))"
        unfolding unf s(1) by force
    qed
    then have "set (fst (solve_uncached t coeffs)) = {xs. is_solution t coeffs xs}" by blast
    moreover have "snd (solve_uncached t coeffs) = None" by (simp add: unf)
    ultimately show ?thesis using d by blast
  qed
qed

lemma fold_cached:
  assumes r: "\<And>cache y. cache_ok cache \<Longrightarrow> fst (r cache y) = g y \<and> cache_ok (snd (r cache y))"
  shows "cache_ok cache \<Longrightarrow>
    (case fold (\<lambda>(x, y) (solutions, stop, cache).
                  if stop \<noteq> None then (solutions, stop, cache)
                  else (case r cache y of
                          ((rs, e), cache') \<Rightarrow> (solutions @ map ((#) x) rs, e, cache')))
               pairs (acc, stop, cache) of
       (solutions, stop', cache') \<Rightarrow>
         (solutions, stop') =
            fold (\<lambda>(x, y) (solutions, stop).
                    if stop \<noteq> None then (solutions, stop)
                    else (case g y of (rs, e) \<Rightarrow> (solutions @ map ((#) x) rs, e)))
                 pairs (acc, stop)
         \<and> cache_ok cache')"
proof (induction pairs arbitrary: acc stop cache)
  case Nil
  then show ?case by simp
next
  case (Cons p pairs)
  obtain x y where p: "p = (x, y)" by (cases p)
  show ?case
  proof (cases "stop = None")
    case False
    with Cons.IH [OF Cons.prems, of acc stop] show ?thesis by (simp add: p)
  next
    case True
    obtain rs e cache' where rr: "r cache y = ((rs, e), cache')" by (cases "r cache y") auto
    with r [OF Cons.prems, of y] have gy: "g y = (rs, e)" and ok: "cache_ok cache'" by simp_all
    from Cons.IH [OF ok, of "acc @ map ((#) x) rs" e] show ?thesis
      by (simp add: p True rr gy)
  qed
qed

text \<open>
  The cache changes nothing: from a coherent cache \<open>solve_linear_diop\<close> yields what the
  enumeration without a cache yields, raises what it raises, and leaves a coherent cache.
\<close>

theorem cache_transparent:
  "cache_ok cache \<Longrightarrow>
   fst (solve_linear_diop cache t coeffs) = solve_uncached t coeffs
   \<and> cache_ok (snd (solve_linear_diop cache t coeffs))"
proof (induction "length coeffs" arbitrary: coeffs t cache rule: less_induct)
  case less
  have "length coeffs = 0 \<or> length coeffs = 1 \<or> length coeffs = 2 \<or> 3 \<le> length coeffs"
    by arith
  then consider "length coeffs = 0" | "length coeffs = 1"
    | sols where "2 \<le> length coeffs" "cache (t, coeffs) = Some sols"
    | "length coeffs = 2" "cache (t, coeffs) = None"
    | "3 \<le> length coeffs" "cache (t, coeffs) = None"
    by (cases "cache (t, coeffs)") fastforce+
  then show ?case
  proof cases
    case 1
    with less.prems show ?thesis
      by (simp only: solve_linear_diop.simps [of cache t coeffs] solve_uncached.simps [of t coeffs])
         simp
  next
    case 2
    with less.prems show ?thesis
      by (simp only: solve_linear_diop.simps [of cache t coeffs] solve_uncached.simps [of t coeffs])
         simp
  next
    case 3
    from 3(2) less.prems have "solve_uncached t coeffs = (sols, None)" by (simp add: cache_ok_def)
    moreover from 3 have "solve_linear_diop cache t coeffs = ((sols, None), cache)"
      by (subst solve_linear_diop.simps) auto
    ultimately show ?thesis using less.prems by simp
  next
    case 4
    obtain pairs raised where b: "base_solution_linear (coeffs ! 0) (coeffs ! 1) t = (pairs, raised)"
      by (cases "base_solution_linear (coeffs ! 0) (coeffs ! 1) t")
    from 4 b have c: "solve_linear_diop cache t coeffs =
        ((map (\<lambda>(x, y). [x, y]) pairs, raised),
         if raised = None then cache((t, coeffs) \<mapsto> map (\<lambda>(x, y). [x, y]) pairs) else cache)"
      by (subst solve_linear_diop.simps) (simp add: Let_def)
    from 4 b have u: "solve_uncached t coeffs = (map (\<lambda>(x, y). [x, y]) pairs, raised)"
      by (subst solve_uncached.simps) simp
    from less.prems u show ?thesis by (auto simp: c cache_ok_def)
  next
    case 5
    define nc where "nc = map (\<lambda>c. c div remainder_gcd coeffs) (tl coeffs)"
    from 5 have n: "length coeffs \<noteq> 0" "length coeffs \<noteq> 1" "length coeffs \<noteq> 2" by auto
    from 5 have "length nc < length coeffs" by (simp add: nc_def)
    note IH = less.hyps [OF this]
    obtain pairs raised where
      b: "base_solution_linear (coeffs ! 0) (remainder_gcd coeffs) t = (pairs, raised)"
      by (cases "base_solution_linear (coeffs ! 0) (remainder_gcd coeffs) t")
    obtain sols stop cache' where
      f: "fold (\<lambda>(x, y) (solutions, stop, cache).
                  if stop \<noteq> None then (solutions, stop, cache)
                  else (case solve_linear_diop cache y nc of
                          ((rs, e), cache') \<Rightarrow> (solutions @ map ((#) x) rs, e, cache')))
               pairs ([], None, cache) = (sols, stop, cache')"
      by (rule prod_cases3)
    from fold_cached [of "\<lambda>cache y. solve_linear_diop cache y nc" "\<lambda>y. solve_uncached y nc",
        OF IH less.prems, of pairs "[]" None] f
    have g: "fold (\<lambda>(x, y) (solutions, stop).
                    if stop \<noteq> None then (solutions, stop)
                    else (case solve_uncached y nc of (rs, e) \<Rightarrow> (solutions @ map ((#) x) rs, e)))
                 pairs ([], None) = (sols, stop)"
      and ok: "cache_ok cache'"
      by simp_all
    have u: "solve_uncached t coeffs =
        (case stop of Some e \<Rightarrow> (sols, Some e) | None \<Rightarrow> (sols, raised))"
      by (subst solve_uncached.simps) (simp only: n if_False b nc_def [symmetric] g prod.case)
    have c: "solve_linear_diop cache t coeffs =
        (case stop of
           Some e \<Rightarrow> ((sols, Some e), cache')
         | None \<Rightarrow>
             (case raised of
                Some e \<Rightarrow> ((sols, Some e), cache')
              | None \<Rightarrow> ((sols, None), cache'((t, coeffs) \<mapsto> sols))))"
      by (subst solve_linear_diop.simps)
         (simp only: n if_False 5(2) option.case b nc_def [symmetric] f prod.case)
    from ok u show ?thesis
      by (auto simp: c cache_ok_def split: option.splits)
  qed
qed

lemma cache_ok_empty: "cache_ok Map.empty"
  by (simp add: cache_ok_def)

lemma solve_linear_diop_no_coefficients:
  "solve_linear_diop cache total' [] = ((if total' = 0 then [[]] else [], None), cache)"
  by (simp add: solve_linear_diop.simps)

lemma is_solution_one:
  assumes "0 < c"
  shows "is_solution t [c] xs \<longleftrightarrow> 0 \<le> t \<and> t mod c = 0 \<and> xs = [t div c]"
proof
  assume s: "is_solution t [c] xs"
  then obtain x where x: "xs = [x]" "0 \<le> x" "c * x = t"
    by (cases xs) (auto simp: is_solution_def)
  with assms show "0 \<le> t \<and> t mod c = 0 \<and> xs = [t div c]" by auto
next
  assume r: "0 \<le> t \<and> t mod c = 0 \<and> xs = [t div c]"
  then have "c dvd t" by (simp add: dvd_eq_mod_eq_0)
  with r assms show "is_solution t [c] xs"
    by (simp add: is_solution_def pos_imp_zdiv_nonneg_iff)
qed

lemma solve_linear_diop_correct:
  assumes ok: "cache_ok cache" and pos: "\<forall>c \<in> set coeffs. 0 < c"
    and len: "2 \<le> length coeffs \<or> (length coeffs = 1 \<and> 0 \<le> t)"
  shows "snd (fst (solve_linear_diop cache t coeffs)) = None
     \<and> distinct (fst (fst (solve_linear_diop cache t coeffs)))
     \<and> set (fst (fst (solve_linear_diop cache t coeffs))) = {xs. is_solution t coeffs xs}
     \<and> cache_ok (snd (solve_linear_diop cache t coeffs))"
proof -
  have "snd (solve_uncached t coeffs) = None
     \<and> distinct (fst (solve_uncached t coeffs))
     \<and> set (fst (solve_uncached t coeffs)) = {xs. is_solution t coeffs xs}"
  proof (cases "2 \<le> length coeffs")
    case True
    then show ?thesis using pos by (rule solve_uncached_correct)
  next
    case False
    with len obtain c where c: "coeffs = [c]" "0 \<le> t" by (cases coeffs) auto
    with pos have "0 < c" by simp
    from is_solution_one [OF this, of t] c(2) \<open>0 < c\<close> show ?thesis
      by (auto simp: c(1) solve_uncached.simps [of t "[c]"])
  qed
  with cache_transparent [OF ok, of t coeffs] show ?thesis by simp
qed

lemma no_solution_negative:
  assumes "t < 0" "\<forall>c \<in> set coeffs. 0 < c"
  shows "\<not> is_solution t coeffs xs"
proof
  assume "is_solution t coeffs xs"
  then have "length xs = length coeffs" "list_all (\<lambda>x. 0 \<le> x) xs" "weighted_sum coeffs xs = t"
    by (simp_all add: is_solution_def)
  moreover from assms(2) have "\<forall>c \<in> set coeffs. 0 \<le> c" by (auto intro: less_imp_le)
  ultimately have "0 \<le> t" using weighted_sum_nonneg [of xs coeffs] by simp
  with assms(1) show False by simp
qed

lemma solve_linear_diop_negative_total_many:
  assumes "cache_ok cache" "\<forall>c \<in> set coeffs. 0 < c" "2 \<le> length coeffs" "t < 0"
  shows "fst (solve_linear_diop cache t coeffs) = ([], None)"
proof -
  from solve_linear_diop_correct [OF assms(1,2), of t] assms(3)
  have "snd (fst (solve_linear_diop cache t coeffs)) = None"
    "set (fst (fst (solve_linear_diop cache t coeffs))) = {xs. is_solution t coeffs xs}"
    by simp_all
  with no_solution_negative [OF assms(4,2)] show ?thesis
    by (simp add: prod_eq_iff)
qed

text \<open>
  C3: \<open>base_solution_linear(a, b, c)\<close> raises the ValueError exactly when \<open>a \<le> 0\<close> or
  \<open>b \<le> 0\<close>, and then before it has yielded anything; for positive \<open>a\<close>, \<open>b\<close> and \<open>c\<close>
  it yields the pairs \<open>(x, y)\<close> of non-negative integers with \<open>a * x + b * y = c\<close>, all
  of them and each once; and when \<open>c // gcd(a, gcd(b, c))\<close> is 0 it yields the single
  pair \<open>(0, 0)\<close>.
\<close>

theorem base_solution_linear_spec:
  "(snd (base_solution_linear a b c) = Some ValueError \<longleftrightarrow> a \<le> 0 \<or> b \<le> 0)
   \<and> (a \<le> 0 \<or> b \<le> 0 \<longrightarrow> base_solution_linear a b c = ([], Some ValueError))
   \<and> (0 < a \<and> 0 < b \<and> 0 < c \<longrightarrow>
        snd (base_solution_linear a b c) = None
        \<and> distinct (fst (base_solution_linear a b c))
        \<and> set (fst (base_solution_linear a b c))
            = {(x, y). 0 \<le> x \<and> 0 \<le> y \<and> a * x + b * y = c})
   \<and> (0 < a \<and> 0 < b \<and> c div gcd a (gcd b c) = 0 \<longrightarrow>
        base_solution_linear a b c = ([(0, 0)], None))"
proof (intro conjI impI)
  show "snd (base_solution_linear a b c) = Some ValueError \<longleftrightarrow> a \<le> 0 \<or> b \<le> 0"
    by (rule base_solution_linear_raises)
  show "base_solution_linear a b c = ([], Some ValueError)" if "a \<le> 0 \<or> b \<le> 0"
    using that by (simp add: base_solution_linear_def)
  show "base_solution_linear a b c = ([(0, 0)], None)"
    if "0 < a \<and> 0 < b \<and> c div gcd a (gcd b c) = 0"
    using that by (simp add: base_solution_linear_def Let_def)
next
  assume "0 < a \<and> 0 < b \<and> 0 < c"
  then have ab: "0 < a" "0 < b" by simp_all
  from base_solution_linear_correct [OF ab, of c]
  show "snd (base_solution_linear a b c) = None"
    and "distinct (fst (base_solution_linear a b c))"
    and "set (fst (base_solution_linear a b c)) = {(x, y). 0 \<le> x \<and> 0 \<le> y \<and> a * x + b * y = c}"
    by simp_all
qed

theorem base_solution_linear_spec_witness:
  "(0::int) < 2 \<and> (0::int) < 3 \<and> (0::int) < 12 \<and> (0::int) div gcd 2 (gcd 3 0) = 0
   \<and> base_solution_linear 0 3 12 = ([], Some ValueError)
   \<and> snd (base_solution_linear 2 3 12) = None
   \<and> distinct (fst (base_solution_linear 2 3 12))
   \<and> set (fst (base_solution_linear 2 3 12)) = {(x, y). 0 \<le> x \<and> 0 \<le> y \<and> 2 * x + 3 * y = 12}
   \<and> base_solution_linear 2 3 0 = ([(0, 0)], None)"
  using base_solution_linear_spec [of 2 3 12] base_solution_linear_spec [of 2 3 0]
    base_solution_linear_spec [of 0 3 12]
  by simp

text \<open>
  C9: with the single coefficient 0 the solver raises ZeroDivisionError, whatever the
  total and the cache, and yields nothing.
\<close>

theorem solve_linear_diop_zero_coefficient:
  "solve_linear_diop cache total' [0] = (([], Some ZeroDivisionError), cache)"
  by (simp add: solve_linear_diop.simps)

text \<open>
  C2, at the input \<open>solve_linear_diop(-2, 1)\<close>: the one-coefficient branch yields the
  tuple \<open>(-2,)\<close>, which is not a tuple of non-negative integers.
\<close>

theorem solve_linear_diop_negative_total:
  "solve_linear_diop cache (- 2) [1] = (([[- 2]], None), cache) \<and> \<not> is_solution (- 2) [1] [- 2]"
  by (simp add: solve_linear_diop.simps is_solution_def)

section \<open>Verification of the vector enumerator\<close>

lemma sorted_wrt_blocks:
  "sorted_wrt Q xs \<Longrightarrow> \<forall>x \<in> set xs. sorted_wrt R (f x) \<Longrightarrow>
   \<forall>x \<in> set xs. \<forall>y \<in> set xs. Q x y \<longrightarrow> (\<forall>a \<in> set (f x). \<forall>b \<in> set (f y). R a b) \<Longrightarrow>
   sorted_wrt R (concat (map f xs))"
proof (induction xs)
  case Nil
  show ?case by simp
next
  case (Cons x xs)
  then show ?case by (auto simp: sorted_wrt_append)
qed

lemma integer_partition_vector_iter_correct:
  assumes "1 \<le> parts" "0 \<le> t \<or> 2 \<le> parts"
  shows "sorted_wrt ord_class.lexordp (integer_partition_vector_iter t parts)
     \<and> set (integer_partition_vector_iter t parts)
         = {xs. int (length xs) = parts \<and> list_all (\<lambda>x. 0 \<le> x) xs \<and> sum_list xs = t}"
  using assms
proof (induction "nat parts" arbitrary: parts t)
  case 0
  then show ?case by simp
next
  case (Suc n)
  show ?case
  proof (cases "parts = 1")
    case True
    with Suc.prems have t: "0 \<le> t" by simp
    have "{xs. int (length xs) = 1 \<and> list_all (\<lambda>x. 0 \<le> x) xs \<and> sum_list xs = t} = {[t]}"
    proof (intro set_eqI iffI)
      fix xs assume "xs \<in> {xs. int (length xs) = 1 \<and> list_all (\<lambda>x. 0 \<le> x) xs \<and> sum_list xs = t}"
      then show "xs \<in> {[t]}" by (cases xs) auto
    next
      fix xs assume "xs \<in> {[t]}"
      with t show "xs \<in> {xs. int (length xs) = 1 \<and> list_all (\<lambda>x. 0 \<le> x) xs \<and> sum_list xs = t}"
        by simp
    qed
    moreover have "integer_partition_vector_iter t 1 = [[t]]"
      by (simp add: integer_partition_vector_iter.simps [of t 1])
    ultimately show ?thesis using True by simp
  next
    case False
    with Suc.prems have p: "2 \<le> parts" by simp
    let ?block = "\<lambda>i. map ((#) i) (integer_partition_vector_iter (t - i) (parts - 1))"
    have unf: "integer_partition_vector_iter t parts = concat (map ?block [0..t])"
      using p by (simp add: integer_partition_vector_iter.simps [of t parts])
    have IH: "sorted_wrt ord_class.lexordp (integer_partition_vector_iter (t - i) (parts - 1))
        \<and> set (integer_partition_vector_iter (t - i) (parts - 1))
            = {xs. int (length xs) = parts - 1 \<and> list_all (\<lambda>x. 0 \<le> x) xs \<and> sum_list xs = t - i}"
      if "i \<in> set [0..t]" for i
    proof -
      from Suc.hyps(2) p have "n = nat (parts - 1)" by simp
      moreover from p have "1 \<le> parts - 1" by simp
      moreover from that have "0 \<le> t - i \<or> 2 \<le> parts - 1" by simp
      ultimately show ?thesis by (rule Suc.hyps(1))
    qed
    have "sorted_wrt ord_class.lexordp (concat (map ?block [0..t]))"
    proof (rule sorted_wrt_blocks [where Q = "(<)"])
      show "sorted_wrt (<) [0..t]" by simp
      show "\<forall>i \<in> set [0..t]. sorted_wrt ord_class.lexordp (?block i)"
        using IH by (simp add: sorted_wrt_map)
      show "\<forall>i \<in> set [0..t]. \<forall>j \<in> set [0..t]. i < j \<longrightarrow>
          (\<forall>a \<in> set (?block i). \<forall>b \<in> set (?block j). ord_class.lexordp a b)"
        by auto
    qed
    moreover have "xs \<in> set (concat (map ?block [0..t]))
        \<longleftrightarrow> int (length xs) = parts \<and> list_all (\<lambda>x. 0 \<le> x) xs \<and> sum_list xs = t" for xs
    proof
      assume "xs \<in> set (concat (map ?block [0..t]))"
      then obtain i ys where i: "i \<in> set [0..t]" "ys \<in> set (integer_partition_vector_iter (t - i) (parts - 1))"
          "xs = i # ys"
        by auto
      with IH [OF i(1)] show "int (length xs) = parts \<and> list_all (\<lambda>x. 0 \<le> x) xs \<and> sum_list xs = t"
        by auto
    next
      assume r: "int (length xs) = parts \<and> list_all (\<lambda>x. 0 \<le> x) xs \<and> sum_list xs = t"
      with p obtain i ys where xs: "xs = i # ys" by (cases xs) auto
      from r xs have ys: "int (length ys) = parts - 1" "list_all (\<lambda>x. 0 \<le> x) ys" "sum_list ys = t - i"
          "0 \<le> i"
        by auto
      from ys(2) have "0 \<le> sum_list ys" by (induction ys) auto
      with ys have i: "i \<in> set [0..t]" by simp
      with IH [OF i] ys have "ys \<in> set (integer_partition_vector_iter (t - i) (parts - 1))" by simp
      with i show "xs \<in> set (concat (map ?block [0..t]))" unfolding xs by force
    qed
    ultimately show ?thesis unfolding unf by blast
  qed
qed

text \<open>The example of the docstring.\<close>

lemma integer_partition_vector_iter_example:
  "integer_partition_vector_iter 5 2 = [[0, 5], [1, 4], [2, 3], [3, 2], [4, 1], [5, 0]]"
  by (simp add: integer_partition_vector_iter.simps upto.simps)

lemma integer_partition_vector_iter_negative_total_many:
  "t < 0 \<Longrightarrow> 2 \<le> parts \<Longrightarrow> integer_partition_vector_iter t parts = []"
  by (simp add: integer_partition_vector_iter.simps [of t parts])

text \<open>
  C8, at the input \<open>integer_partition_vector_iter(-1, 1)\<close>: the branch \<open>parts == 1\<close>
  yields the tuple \<open>(-1,)\<close>, which has a negative component.
\<close>

theorem integer_partition_vector_iter_negative_total:
  "integer_partition_vector_iter (- 1) 1 = [[- 1]]"
  by (simp add: integer_partition_vector_iter.simps)

section \<open>Verification of the generator chain\<close>

lemma chain_loop_yield:
  "\<not> i < length fs \<Longrightarrow> chain_loop body fs gens d i s out =
     (case body d s of
        Inl e \<Rightarrow> Some (out, Some e)
      | Inr (items, s') \<Rightarrow> chain_loop body fs gens d (i - 1) s' (out @ items))"
  by (subst chain_loop.simps) simp

lemma chain_loop_next:
  "i < length fs \<Longrightarrow> length gens = length fs \<Longrightarrow>
   chain_loop body fs (gens[i := Some g]) d i s out =
     (case g of
        [] \<Rightarrow> if i = 0 then Some (out, None)
              else chain_loop body fs (gens[i := None]) d (i - 1) s out
      | resume # g' \<Rightarrow>
          (case resume s of
             Inl e \<Rightarrow> Some (out, Some e)
           | Inr (d', s') \<Rightarrow> chain_loop body fs (gens[i := Some g']) d' (Suc i) s' out))"
  by (subst chain_loop.simps) (auto split: list.splits sum.splits prod.splits)

lemma chain_loop_fresh:
  "i < length fs \<Longrightarrow> length gens = length fs \<Longrightarrow> gens ! i = None \<Longrightarrow>
   chain_loop body fs gens d i s out = chain_loop body fs (gens[i := Some ((fs ! i) d)]) d i s out"
  by (simp add: chain_loop.simps [of body fs gens d i s out]
        chain_loop.simps [of body fs "gens[i := Some ((fs ! i) d)]" d i s out]
      split: list.splits sum.splits prod.splits)

lemma chain_resumed:
  assumes i: "i < length fs"
    and A: "\<And>gens d s out. length gens = length fs \<Longrightarrow>
              (\<forall>j. Suc i \<le> j \<and> j < length fs \<longrightarrow> gens ! j = None) \<Longrightarrow>
              \<exists>d'. chain_loop body fs gens d (Suc i) s out =
                (case nested_for body (drop (Suc i) fs) d s of
                   (items, Inl e) \<Rightarrow> Some (out @ items, Some e)
                 | (items, Inr s') \<Rightarrow> chain_loop body fs gens d' i s' (out @ items))"
    and len: "length gens = length fs"
    and none: "\<forall>j. i < j \<and> j < length fs \<longrightarrow> gens ! j = None"
  shows "\<exists>d'. chain_loop body fs (gens[i := Some g]) d i s out =
     (case for_loop g (nested_for body (drop (Suc i) fs)) s of
        (items, Inl e) \<Rightarrow> Some (out @ items, Some e)
      | (items, Inr s') \<Rightarrow>
          if i = 0 then Some (out @ items, None)
          else chain_loop body fs (gens[i := None]) d' (i - 1) s' (out @ items))"
proof (induction g arbitrary: d s out)
  case Nil
  show ?case by (rule exI [of _ d]) (simp add: chain_loop_next [OF i len])
next
  case (Cons resume g)
  show ?case
  proof (cases "resume s")
    case (Inl e)
    then show ?thesis by (intro exI [of _ d]) (simp add: chain_loop_next [OF i len])
  next
    case (Inr p)
    obtain d1 s1 where p: "p = (d1, s1)" by (cases p)
    have l1: "length (gens[i := Some g]) = length fs" using len by simp
    have n1: "\<forall>j. Suc i \<le> j \<and> j < length fs \<longrightarrow> gens[i := Some g] ! j = None"
      using none by simp
    from A [OF l1 n1, of d1 s1 out] obtain d2 where
      a: "chain_loop body fs (gens[i := Some g]) d1 (Suc i) s1 out =
            (case nested_for body (drop (Suc i) fs) d1 s1 of
               (items, Inl e) \<Rightarrow> Some (out @ items, Some e)
             | (items, Inr s') \<Rightarrow> chain_loop body fs (gens[i := Some g]) d2 i s' (out @ items))"
      by blast
    obtain items r where k: "nested_for body (drop (Suc i) fs) d1 s1 = (items, r)"
      by (cases "nested_for body (drop (Suc i) fs) d1 s1")
    show ?thesis
    proof (cases r)
      case (Inl e)
      then show ?thesis by (intro exI [of _ d]) (simp add: chain_loop_next [OF i len] Inr p a k)
    next
      case r: (Inr s2)
      from Cons.IH [of d2 s2 "out @ items"] obtain d3 where
        b: "chain_loop body fs (gens[i := Some g]) d2 i s2 (out @ items) =
             (case for_loop g (nested_for body (drop (Suc i) fs)) s2 of
                (later, Inl e) \<Rightarrow> Some ((out @ items) @ later, Some e)
              | (later, Inr s') \<Rightarrow>
                  if i = 0 then Some ((out @ items) @ later, None)
                  else chain_loop body fs (gens[i := None]) d3 (i - 1) s' ((out @ items) @ later))"
        by blast
      have "chain_loop body fs (gens[i := Some (resume # g)]) d i s out
          = chain_loop body fs (gens[i := Some g]) d1 (Suc i) s1 out"
        by (simp add: chain_loop_next [OF i len] Inr p)
      also have "\<dots> = chain_loop body fs (gens[i := Some g]) d2 i s2 (out @ items)"
        by (simp add: a k r)
      also note b
      finally show ?thesis
        by (intro exI [of _ d3]) (simp add: Inr p k r split: prod.splits sum.splits)
    qed
  qed
qed

lemma chain_stage:
  assumes "fs \<noteq> []"
  shows "i \<le> length fs \<Longrightarrow> length gens = length fs \<Longrightarrow>
     (\<forall>j. i \<le> j \<and> j < length fs \<longrightarrow> gens ! j = None) \<Longrightarrow>
     \<exists>d'. chain_loop body fs gens d i s out =
       (case nested_for body (drop i fs) d s of
          (items, Inl e) \<Rightarrow> Some (out @ items, Some e)
        | (items, Inr s') \<Rightarrow>
            if i = 0 then Some (out @ items, None)
            else chain_loop body fs gens d' (i - 1) s' (out @ items))"
proof (induction "length fs - i" arbitrary: i gens d s out)
  case 0
  then have i: "i = length fs" by simp
  with assms have "i \<noteq> 0" by simp
  then show ?case
    by (intro exI [of _ d]) (simp add: i chain_loop_yield split: sum.splits)
next
  case (Suc k)
  then have i: "i < length fs" by simp
  have A: "\<exists>d'. chain_loop body fs gens d (Suc i) s out =
                (case nested_for body (drop (Suc i) fs) d s of
                   (items, Inl e) \<Rightarrow> Some (out @ items, Some e)
                 | (items, Inr s') \<Rightarrow> chain_loop body fs gens d' i s' (out @ items))"
    if "length gens = length fs" "\<forall>j. Suc i \<le> j \<and> j < length fs \<longrightarrow> gens ! j = None"
    for gens d s out
  proof -
    from Suc.hyps(2) i have "k = length fs - Suc i" "Suc i \<le> length fs" by simp_all
    from Suc.hyps(1) [OF this that, of d s out] show ?thesis by simp
  qed
  from Suc.prems(3) have none: "\<forall>j. i < j \<and> j < length fs \<longrightarrow> gens ! j = None" by simp
  from Suc.prems(3) i have gi: "gens ! i = None" by simp
  then have same: "gens[i := None] = gens" by (metis list_update_id)
  have dr: "drop i fs = fs ! i # drop (Suc i) fs" using i by (simp add: Cons_nth_drop_Suc)
  from chain_resumed [OF i A Suc.prems(2) none, of "(fs ! i) d" d s out]
  obtain d' where r: "chain_loop body fs (gens[i := Some ((fs ! i) d)]) d i s out =
     (case for_loop ((fs ! i) d) (nested_for body (drop (Suc i) fs)) s of
        (items, Inl e) \<Rightarrow> Some (out @ items, Some e)
      | (items, Inr s') \<Rightarrow>
          if i = 0 then Some (out @ items, None)
          else chain_loop body fs (gens[i := None]) d' (i - 1) s' (out @ items))"
    by blast
  show ?case
    by (rule exI [of _ d'])
       (simp add: chain_loop_fresh [OF i Suc.prems(2) gi] r [unfolded same] dr)
qed

text \<open>
  The loop over the chain ends, whatever the factories and the body are, and it is the
  nested \<open>for\<close> loops along the factories with the body innermost.
\<close>

theorem generator_chain_nested:
  "generator_chain body initial_data factories s
     = Some (finished (nested_for body factories initial_data s))"
proof (cases "factories = []")
  case True
  then show ?thesis
    by (simp add: generator_chain_def finished_def split: sum.splits)
next
  case False
  from chain_stage [OF False, of 0 "replicate (length factories) None" body initial_data s "[]"]
  show ?thesis using False
    by (auto simp: generator_chain_def finished_def split: prod.splits sum.splits)
qed

lemma for_loop_pure:
  "for_loop (pure_generator xs) (\<lambda>d s. (k d, Inr ())) () = (concat (map k xs), Inr ())"
  by (induction xs) (simp_all add: pure_generator_def)

lemma nested_for_pure:
  "nested_for (\<lambda>d s. Inr ([d], ())) (map (\<lambda>f d. pure_generator (f d)) fs)
     = (\<lambda>d s. (nested_loops fs d, Inr ()))"
proof (induction fs)
  case Nil
  show ?case by (simp add: fun_eq_iff)
next
  case (Cons f fs)
  show ?case by (simp add: Cons.IH for_loop_pure fun_eq_iff)
qed

lemma generator_chain_list_nested:
  "generator_chain_list initial_data factories = Some (nested_loops factories initial_data, None)"
  by (simp add: generator_chain_list_def generator_chain_nested nested_for_pure finished_def)

text \<open>
  C5: the chain over any list of factories, of any length, yields the values of the
  nested loop \<open>for d1 in f1(initial): for d2 in f2(d1): ... yield dn\<close> in the same order
  and then ends; with no factory it yields the initial datum once.
\<close>

theorem generator_chain_is_nested_loops:
  "generator_chain_list initial_data factories = Some (nested_loops factories initial_data, None)
   \<and> generator_chain_list initial_data [] = Some ([initial_data], None)"
  by (simp add: generator_chain_list_nested)

text \<open>
  The example of the docstring, run on the loop itself, and a chain of depth four.
\<close>

lemma generator_chain_example:
  "generator_chain_list (5::int) [\<lambda>n. [1..n - 1], \<lambda>i. [1..i]]
     = Some ([1, 1, 2, 1, 2, 3, 1, 2, 3, 4], None)"
  by (simp add: generator_chain_list_def generator_chain_def chain_loop.simps pure_generator_def
      upto.simps)

lemma generator_chain_depth_four:
  "generator_chain_list (2::int) [\<lambda>n. [1..n], \<lambda>n. [n, n + 1], \<lambda>n. [1..n - 1], \<lambda>n. [n, 10 * n]]
     = Some ([1, 10, 1, 10, 1, 10, 2, 20], None)"
  by (simp add: generator_chain_list_nested upto.simps)

section \<open>Verification of substitute and replace\<close>

lemma substitute_unchanged:
  shows "variables_of expression \<inter> dom substitution = {} \<longrightarrow>
      substitute from_args expression substitution = Inr (Single expression, False)"
    and "(\<Union>operand \<in> set operands. variables_of operand) \<inter> dom substitution = {} \<longrightarrow>
      substitute_operands from_args operands substitution = Inr (operands, False)"
proof (induction from_args expression substitution and from_args operands substitution
    rule: substitute_substitute_operands.induct)
  case (1 from_args x substitution)
  show ?case by (auto simp: dom_def)
next
  case (2 from_args a substitution)
  show ?case by simp
next
  case (3 from_args head operands substitution)
  then show ?case by simp
next
  case (4 from_args substitution)
  show ?case by simp
next
  case (5 from_args operand operands substitution)
  show ?case
  proof
    assume d: "(\<Union>operand \<in> set (operand # operands). variables_of operand) \<inter> dom substitution = {}"
    then have "variables_of operand \<inter> dom substitution = {}" by auto
    with "5.IH"(1) have o: "substitute from_args operand substitution = Inr (Single operand, False)"
      by simp
    from d have "(\<Union>operand \<in> set operands. variables_of operand) \<inter> dom substitution = {}"
      by auto
    with "5.IH"(2) [OF o refl] 
    have "substitute_operands from_args operands substitution = Inr (operands, False)"
      by simp
    with o show "substitute_operands from_args (operand # operands) substitution
        = Inr (operand # operands, False)"
      by simp
  qed
qed

lemma substitute_operands_append:
  "substitute_operands from_args (xs @ ys) substitution =
     (case substitute_operands from_args xs substitution of
        Inl e \<Rightarrow> Inl e
      | Inr (xs', rx) \<Rightarrow>
          (case substitute_operands from_args ys substitution of
             Inl e \<Rightarrow> Inl e
           | Inr (ys', ry) \<Rightarrow> Inr (xs' @ ys', rx \<or> ry)))"
  by (induction xs) (auto split: sum.splits prod.splits)

text \<open>
  C7: when no variable of the expression is a key of the substitution, \<open>substitute\<close>
  returns the expression it was given, with \<open>False\<close> (HOL has values only: the identical
  object is the equal value); a variable among the operands of an operation that is bound
  to a list has the elements of the list put in its place in the operands that
  \<open>from_args\<close> receives, as in \<open>substitute(f(x, c), {x: [a, b]}) = (f(a, b, c), True)\<close>.
\<close>

theorem substitute_spec:
  "(variables_of expression \<inter> dom substitution = {} \<longrightarrow>
      substitute from_args expression substitution = Inr (Single expression, False))
   \<and> (substitution x = Some (Many es)
      \<and> substitute_operands from_args left substitution = Inr (left', replaced_left)
      \<and> substitute_operands from_args right substitution = Inr (right', replaced_right) \<longrightarrow>
      substitute from_args (Operation head (left @ Variable x # right)) substitution
        = (case construct from_args head (left' @ es @ right') of
             Inl e \<Rightarrow> Inl e
           | Inr e \<Rightarrow> Inr (Single e, True)))
   \<and> substitute from_args (Operation ''f'' [Variable ''x'', Symbol ''c''])
        [''x'' \<mapsto> Many [Symbol ''a'', Symbol ''b'']]
        = (case construct from_args ''f'' [Symbol ''a'', Symbol ''b'', Symbol ''c''] of
             Inl e \<Rightarrow> Inl e
           | Inr e \<Rightarrow> Inr (Single e, True))"
proof (intro conjI impI)
  show "substitute from_args expression substitution = Inr (Single expression, False)"
    if "variables_of expression \<inter> dom substitution = {}"
    using that substitute_unchanged(1) by blast
  show "substitute from_args (Operation head (left @ Variable x # right)) substitution
        = (case construct from_args head (left' @ es @ right') of
             Inl e \<Rightarrow> Inl e
           | Inr e \<Rightarrow> Inr (Single e, True))"
    if "substitution x = Some (Many es)
      \<and> substitute_operands from_args left substitution = Inr (left', replaced_left)
      \<and> substitute_operands from_args right substitution = Inr (right', replaced_right)"
    using that by (simp add: substitute_operands_append)
  show "substitute from_args (Operation ''f'' [Variable ''x'', Symbol ''c''])
        [''x'' \<mapsto> Many [Symbol ''a'', Symbol ''b'']]
        = (case construct from_args ''f'' [Symbol ''a'', Symbol ''b'', Symbol ''c''] of
             Inl e \<Rightarrow> Inl e
           | Inr e \<Rightarrow> Inr (Single e, True))"
    by simp
qed

theorem substitute_spec_witness:
  "variables_of (Operation ''f'' [Variable ''y'', Symbol ''c''])
      \<inter> dom [''x'' \<mapsto> Many [Symbol ''a'', Symbol ''b'']] = {}
   \<and> substitute (\<lambda>head operands. Some (Operation head operands))
        (Operation ''f'' [Variable ''y'', Symbol ''c''])
        [''x'' \<mapsto> Many [Symbol ''a'', Symbol ''b'']]
      = Inr (Single (Operation ''f'' [Variable ''y'', Symbol ''c'']), False)
   \<and> [''x'' \<mapsto> Many [Symbol ''a'', Symbol ''b'']] ''x'' = Some (Many [Symbol ''a'', Symbol ''b''])
   \<and> substitute (\<lambda>head operands. Some (Operation head operands))
        (Operation ''f'' [Symbol ''d'', Variable ''x'', Symbol ''c''])
        [''x'' \<mapsto> Many [Symbol ''a'', Symbol ''b'']]
      = Inr (Single (Operation ''f'' [Symbol ''d'', Symbol ''a'', Symbol ''b'', Symbol ''c'']), True)
   \<and> substitute (\<lambda>head operands. Some (Operation head operands))
        (Operation ''f'' [Variable ''x'', Symbol ''c''])
        [''x'' \<mapsto> Many [Symbol ''a'', Symbol ''b'']]
      = Inr (Single (Operation ''f'' [Symbol ''a'', Symbol ''b'', Symbol ''c'']), True)"
  using substitute_spec [of "Operation ''f'' [Variable ''y'', Symbol ''c'']"
      "[''x'' \<mapsto> Many [Symbol ''a'', Symbol ''b'']]"
      "\<lambda>head operands. Some (Operation head operands)" "''x''" "[Symbol ''a'', Symbol ''b'']"
      "[Symbol ''d'']" "[Symbol ''d'']" False "[Symbol ''c'']" "[Symbol ''c'']" False "''f''"]
  by (simp add: construct_def)

lemma replace_root: "replace from_args expression [] replacement = Inr replacement"
  by (simp add: replace.simps)

lemma construct_not_IndexError:
  "map_sum id Single (construct from_args head operands) \<noteq> Inl IndexError"
  by (simp add: construct_def split: option.splits)

lemma replace_raises:
  "replace from_args expression position replacement = Inl IndexError
     \<longleftrightarrow> \<not> accepted_position expression position"
proof (induction from_args expression position replacement rule: replace.induct)
  case (4 from_args head operands pos position replacement)
  show ?case
  proof (cases "pos \<ge> int (length operands) \<or> pos < - int (length operands)")
    case True
    then show ?thesis by (auto simp: replace.simps)
  next
    case False
    then have r: "\<not> pos \<ge> int (length operands)" "\<not> pos < - int (length operands)" by simp_all
    from "4.IH" [OF r] False show ?thesis
      by (auto simp: replace.simps construct_not_IndexError split: sum.splits replacement.splits)
  qed
qed (simp_all add: replace.simps)

lemma replace_splice:
  assumes "0 \<le> pos" "pos < int (length operands)"
  shows "replace from_args (Operation head operands) [pos] (Many es)
     = map_sum id Single
         (construct from_args head (take (nat pos) operands @ es @ drop (Suc (nat pos)) operands))"
proof -
  from assms have "nat (pos + 1) = Suc (nat pos)" by simp
  with assms show ?thesis
    by (simp add: replace.simps py_slice_to_def py_slice_from_def)
qed

text \<open>
  C6, at the input \<open>replace(f(a), (-1,), [b, c])\<close>: no error is raised, and the operands
  handed to \<open>from_args\<close> are \<open>b, c, a\<close>: the slice \<open>operands[pos+1:]\<close> is \<open>operands[0:]\<close>,
  the whole list, so the operand that was to be replaced is still there.
\<close>

theorem replace_negative_index_splice:
  "replace from_args (Operation ''f'' [Symbol ''a'']) [- 1] (Many [Symbol ''b'', Symbol ''c''])
     = map_sum id Single
         (construct from_args ''f'' [Symbol ''b'', Symbol ''c'', Symbol ''a''])"
  by (simp add: replace.simps py_slice_to_def py_slice_from_def)

text \<open>
  C10: on an operation with at least one operand, \<open>replace\<close> with the position \<open>(-1,)\<close>
  and a single expression raises no IndexError and hands \<open>from_args\<close> the operands with
  the last one replaced; later generally an index \<open>pos\<close> with \<open>-len(operands) \<le> pos < 0\<close>
  replaces the operand \<open>len(operands) + pos\<close>.
\<close>

theorem replace_last_operand:
  "(operands \<noteq> [] \<longrightarrow>
      replace from_args (Operation head operands) [- 1] (Single r)
        = map_sum id Single (construct from_args head (operands[length operands - 1 := r]))
      \<and> replace from_args (Operation head operands) [- 1] (Single r) \<noteq> Inl IndexError)
   \<and> (- int (length operands) \<le> pos \<and> pos < 0 \<longrightarrow>
      replace from_args (Operation head operands) [pos] (Single r)
        = map_sum id Single
            (construct from_args head (operands[nat (int (length operands) + pos) := r])))"
proof (intro conjI impI)
  assume "operands \<noteq> []"
  then have "0 < length operands" by simp
  then have n: "nat (int (length operands) - 1) = length operands - 1" by simp
  from \<open>0 < length operands\<close>
  show e: "replace from_args (Operation head operands) [- 1] (Single r)
      = map_sum id Single (construct from_args head (operands[length operands - 1 := r]))"
    by (simp add: replace.simps py_index_def n)
  show "replace from_args (Operation head operands) [- 1] (Single r) \<noteq> Inl IndexError"
    unfolding e by (rule construct_not_IndexError)
next
  assume "- int (length operands) \<le> pos \<and> pos < 0"
  then show "replace from_args (Operation head operands) [pos] (Single r)
      = map_sum id Single
          (construct from_args head (operands[nat (int (length operands) + pos) := r]))"
    by (simp add: replace.simps py_index_def)
qed

theorem replace_last_operand_witness:
  "[Symbol ''a'', Symbol ''b''] \<noteq> []
   \<and> replace (\<lambda>head operands. Some (Operation head operands))
        (Operation ''f'' [Symbol ''a'', Symbol ''b'']) [- 1] (Single (Symbol ''c''))
      = Inr (Single (Operation ''f'' [Symbol ''a'', Symbol ''c'']))
   \<and> - int (length [Symbol ''a'', Symbol ''b'']) \<le> - 2 \<and> (- 2 :: int) < 0
   \<and> replace (\<lambda>head operands. Some (Operation head operands))
        (Operation ''f'' [Symbol ''a'', Symbol ''b'']) [- 2] (Single (Symbol ''c''))
      = Inr (Single (Operation ''f'' [Symbol ''c'', Symbol ''b'']))"
  using replace_last_operand [of "[Symbol ''a'', Symbol ''b'']"
      "\<lambda>head operands. Some (Operation head operands)" "''f''" "Symbol ''c''" "- 2"]
  by (simp add: construct_def)

text \<open>The example of the docstring of \<open>replace\<close>.\<close>

lemma replace_example:
  "replace from_args (Operation ''f'' [Symbol ''a'']) [0] (Many [Symbol ''b'', Symbol ''c''])
     = map_sum id Single (construct from_args ''f'' [Symbol ''b'', Symbol ''c''])"
  by (simp add: replace.simps py_slice_to_def py_slice_from_def)

section \<open>Verification of the commutative partitioner\<close>

lemma multiplicity_setitem:
  "multiplicity (setitem ms x n) y =
     (if y = x then (if 0 < n then n else 0) else multiplicity ms y)"
  by (simp add: multiplicity_def setitem_def update_conv' delete_conv')

lemma multiplicity_Nil [simp]: "multiplicity [] x = 0"
  by (simp add: multiplicity_def)

lemma multiplicity_absent: "x \<notin> fst ` set ms \<Longrightarrow> multiplicity ms x = 0"
proof -
  assume "x \<notin> fst ` set ms"
  then have "map_of ms x = None" by (simp add: map_of_eq_None_iff)
  then show ?thesis by (simp add: multiplicity_def)
qed

lemma multiplicity_present:
  "distinct (map fst ms) \<Longrightarrow> (x, n) \<in> set ms \<Longrightarrow> multiplicity ms x = n"
  by (simp add: multiplicity_def)

lemma multiplicity_nonneg: "is_multiset ms \<Longrightarrow> 0 \<le> multiplicity ms x"
proof (cases "map_of ms x")
  case None
  then show ?thesis by (simp add: multiplicity_def)
next
  case (Some n)
  assume "is_multiset ms"
  moreover from Some have "(x, n) \<in> set ms" by (rule map_of_SomeD)
  ultimately have "0 < n" by (auto simp: is_multiset_def list_all_iff)
  with Some show ?thesis by (simp add: multiplicity_def)
qed

lemma divide_values_stop:
  "count' \<noteq> 0 \<Longrightarrow> \<exists>(x, n) \<in> set items. n mod count' \<noteq> 0 \<Longrightarrow>
   divide_values items count' new_values = Inr None"
proof (induction items arbitrary: new_values)
  case Nil
  then show ?case by simp
next
  case (Cons p items)
  obtain x n where p: "p = (x, n)" by (cases p)
  show ?case
  proof (cases "n mod count' = 0")
    case True
    with Cons.prems p have "\<exists>(x, n) \<in> set items. n mod count' \<noteq> 0" by auto
    from Cons.IH [OF Cons.prems(1) this] True Cons.prems(1) show ?thesis by (simp add: p)
  next
    case False
    with Cons.prems(1) show ?thesis by (simp add: p)
  qed
qed

lemma divide_values_all:
  "0 < count' \<Longrightarrow> distinct (map fst items) \<Longrightarrow> \<forall>(x, n) \<in> set items. 0 < n \<and> n mod count' = 0 \<Longrightarrow>
   \<exists>new. divide_values items count' new_values = Inr (Some new)
     \<and> (\<forall>y. multiplicity new y =
           (case map_of items y of None \<Rightarrow> multiplicity new_values y | Some n \<Rightarrow> n div count'))"
proof (induction items arbitrary: new_values)
  case Nil
  then show ?case by simp
next
  case (Cons p items)
  obtain x n where p: "p = (x, n)" by (cases p)
  from Cons.prems p have n: "0 < n" "n mod count' = 0" by auto
  with Cons.prems(1) have "count' dvd n" by (simp add: dvd_eq_mod_eq_0)
  with n Cons.prems(1) have q: "0 < n div count'"
    by (simp add: pos_imp_zdiv_pos_iff zdvd_imp_le)
  from Cons.prems have "distinct (map fst items)" "\<forall>(x, n) \<in> set items. 0 < n \<and> n mod count' = 0"
    by auto
  from Cons.IH [OF Cons.prems(1) this, of "setitem new_values x (n div count')"]
  obtain new where new: "divide_values items count' (setitem new_values x (n div count')) = Inr (Some new)"
      "\<forall>y. multiplicity new y =
           (case map_of items y of
              None \<Rightarrow> multiplicity (setitem new_values x (n div count')) y
            | Some n \<Rightarrow> n div count')"
    by blast
  from Cons.prems(2) p have "map_of items x = None"
    by (simp add: map_of_eq_None_iff)
  with new q n Cons.prems(1) show ?case
    by (auto simp: p multiplicity_setitem split: option.splits)
qed

lemma single_variable_exact:
  assumes c: "0 < count variable" and n: "name variable \<noteq> None" and v: "is_multiset values"
  shows "\<exists>fragments. commutative_single_variable_partiton_iter values variable = (fragments, None)
     \<and> (\<forall>fragment \<in> set fragments. exact_partition values [variable] fragment)
     \<and> (1 < count variable \<and> (\<exists>(x, n) \<in> set values. n mod count variable \<noteq> 0) \<longrightarrow> fragments = [])"
proof (cases "count variable = 1")
  case True
  with n v show ?thesis
    by (auto simp: commutative_single_variable_partiton_iter_def single_fragment_def
        exact_partition_def binding_def multiplicity_nonneg)
next
  case False
  show ?thesis
  proof (cases "\<exists>(x, n) \<in> set values. n mod count variable \<noteq> 0")
    case True
    with c have "divide_values values (count variable) [] = Inr None"
      by (intro divide_values_stop) simp_all
    with False show ?thesis by (simp add: commutative_single_variable_partiton_iter_def)
  next
    case all: False
    with v have "\<forall>(x, n) \<in> set values. 0 < n \<and> n mod count variable = 0"
      by (auto simp: is_multiset_def list_all_iff)
    with v c obtain new where new: "divide_values values (count variable) [] = Inr (Some new)"
        "\<forall>y. multiplicity new y =
           (case map_of values y of
              None \<Rightarrow> multiplicity [] y
            | Some n \<Rightarrow> n div count variable)"
      using divide_values_all [of "count variable" "values" "[]"]
      unfolding is_multiset_def by blast
    have m: "count variable * multiplicity new y = multiplicity values y" for y
    proof (cases "map_of values y")
      case None
      with new(2) show ?thesis by (simp add: multiplicity_def)
    next
      case (Some k)
      then have "(y, k) \<in> set values" by (rule map_of_SomeD)
      with all have "count variable dvd k" by (auto simp: dvd_eq_mod_eq_0)
      with new(2) Some show ?thesis by (simp add: multiplicity_def)
    qed
    have nn: "0 \<le> multiplicity new y" for y
    proof -
      from m [of y] multiplicity_nonneg [OF v, of y] have "0 \<le> count variable * multiplicity new y"
        by simp
      with c show ?thesis by (simp add: zero_le_mult_iff)
    qed
    from False all new(1) n m nn show ?thesis
      by (auto simp: commutative_single_variable_partiton_iter_def single_fragment_def
          exact_partition_def binding_def)
  qed
qed

lemma assign_all_zip:
  "length vars = length sol \<Longrightarrow> distinct (map name vars) \<Longrightarrow>
   \<forall>var \<in> set vars. subst (name var) \<noteq> None \<Longrightarrow>
   \<exists>subst'. assign_all v (zip vars sol) subst = Inr subst'
     \<and> (\<forall>k. k \<notin> name ` set vars \<longrightarrow> subst' k = subst k)
     \<and> (\<forall>i < length vars.
           subst' (name (vars ! i)) = Some (setitem (the (subst (name (vars ! i)))) v (sol ! i)))"
proof (induction vars sol arbitrary: subst rule: list_induct2)
  case Nil
  show ?case by simp
next
  case (Cons var vars c sol)
  from Cons.prems obtain ms where ms: "subst (name var) = Some ms" by auto
  define subst0 where "subst0 = subst(name var \<mapsto> setitem ms v c)"
  have a: "assign v (var, c) subst = Inr subst0" by (simp add: assign_def ms subst0_def)
  from Cons.prems have d: "distinct (map name vars)" and nv: "name var \<notin> name ` set vars"
    by simp_all
  from Cons.prems have "\<forall>var \<in> set vars. subst0 (name var) \<noteq> None"
    by (simp add: subst0_def)
  from Cons.IH [OF d this] obtain subst' where
    s': "assign_all v (zip vars sol) subst0 = Inr subst'"
      "\<forall>k. k \<notin> name ` set vars \<longrightarrow> subst' k = subst0 k"
      "\<forall>i < length vars.
           subst' (name (vars ! i)) = Some (setitem (the (subst0 (name (vars ! i)))) v (sol ! i))"
    by blast
  have "subst' (name ((var # vars) ! i))
      = Some (setitem (the (subst (name ((var # vars) ! i)))) v ((c # sol) ! i))"
    if "i < length (var # vars)" for i
  proof (cases i)
    case 0
    with s'(2) nv ms show ?thesis by (simp add: subst0_def)
  next
    case (Suc j)
    with that have j: "j < length vars" by simp
    then have "name (vars ! j) \<noteq> name var" using nv by (metis image_eqI nth_mem)
    with s'(3) j Suc show ?thesis by (simp add: subst0_def)
  qed
  moreover have "\<forall>k. k \<notin> name ` set (var # vars) \<longrightarrow> subst' k = subst k"
    using s'(2) by (simp add: subst0_def)
  ultimately show ?case using a s'(1) by simp
qed

lemma sum_list_by_index:
  "(\<Sum>x\<leftarrow>xs. f x) = (\<Sum>i = 0..<length xs. f (xs ! i))"
  by (simp add: sum_list_sum_nth)

lemma weighted_sum_by_index:
  "length xs = length cs \<Longrightarrow> weighted_sum cs xs = (\<Sum>i = 0..<length cs. cs ! i * xs ! i)"
  by (simp add: weighted_sum_def sum_list_sum_nth)

lemma chain_invariant_assign:
  assumes inv: "chain_invariant vals vars settled subst"
    and names: "distinct (map name vars)"
    and sol: "is_solution m (map count vars) sol"
    and vm: "(v, m) \<in> set vals" and keys: "distinct (map fst vals)"
  shows "\<exists>subst'. assign_all v (zip vars sol) subst = Inr subst'
     \<and> chain_invariant vals vars (insert v settled) subst'"
proof -
  from sol have len: "length vars = length sol" and nonneg: "list_all (\<lambda>x. 0 \<le> x) sol"
    and total: "weighted_sum (map count vars) sol = m"
    by (simp_all add: is_solution_def)
  from inv have some: "\<forall>var \<in> set vars. subst (name var) \<noteq> None"
    by (auto simp: chain_invariant_def)
  from assign_all_zip [OF len names some, of v] obtain subst' where
    s': "assign_all v (zip vars sol) subst = Inr subst'"
      "\<forall>k. k \<notin> name ` set vars \<longrightarrow> subst' k = subst k"
      "\<forall>i < length vars.
           subst' (name (vars ! i)) = Some (setitem (the (subst (name (vars ! i)))) v (sol ! i))"
    by blast
  have b: "binding subst' (vars ! i) = setitem (binding subst (vars ! i)) v (sol ! i)"
    if "i < length vars" for i
  proof -
    from that some have "subst (name (vars ! i)) \<noteq> None" by simp
    with s'(3) that show ?thesis by (auto simp: binding_def)
  qed
  have solnn: "0 \<le> sol ! i" if "i < length vars" for i
    using nonneg that len by (simp add: list_all_length)
  have mult: "multiplicity (binding subst' (vars ! i)) y =
      (if y = v then sol ! i else multiplicity (binding subst (vars ! i)) y)"
    if "i < length vars" for i y
    using b [OF that] solnn [OF that] by (simp add: multiplicity_setitem)
  have "subst' None = None"
  proof (cases "None \<in> name ` set vars")
    case True
    with some inv show ?thesis by (auto simp: chain_invariant_def)
  next
    case False
    with s'(2) inv show ?thesis by (simp add: chain_invariant_def)
  qed
  moreover have "\<exists>ms. subst' (name var) = Some ms \<and> (\<forall>y. 0 \<le> multiplicity ms y)"
    if "var \<in> set vars" for var
  proof -
    from that obtain i where i: "i < length vars" "var = vars ! i" by (auto simp: in_set_conv_nth)
    from inv that obtain ms where ms: "subst (name var) = Some ms" "\<forall>y. 0 \<le> multiplicity ms y"
      by (auto simp: chain_invariant_def)
    with s'(3) i solnn [OF i(1)] show ?thesis by (simp add: multiplicity_setitem)
  qed
  moreover have "(\<Sum>var\<leftarrow>vars. count var * multiplicity (binding subst' var) y) = multiplicity vals y"
    if "y \<in> insert v settled" for y
  proof (cases "y = v")
    case True
    have "(\<Sum>var\<leftarrow>vars. count var * multiplicity (binding subst' var) y)
        = (\<Sum>i = 0..<length vars. count (vars ! i) * sol ! i)"
      unfolding sum_list_by_index by (rule sum.cong) (simp_all add: mult True)
    also have "\<dots> = weighted_sum (map count vars) sol"
      using len by (simp add: weighted_sum_by_index)
    also have "\<dots> = multiplicity vals v"
      using total vm keys by (simp add: multiplicity_present)
    finally show ?thesis using True by simp
  next
    case False
    with that have y: "y \<in> settled" by simp
    have "(\<Sum>var\<leftarrow>vars. count var * multiplicity (binding subst' var) y)
        = (\<Sum>var\<leftarrow>vars. count var * multiplicity (binding subst var) y)"
      unfolding sum_list_by_index by (rule sum.cong) (simp_all add: mult False)
    with inv y show ?thesis by (simp add: chain_invariant_def)
  qed
  moreover have "multiplicity (binding subst' var) y = 0"
    if "y \<notin> fst ` set vals" "var \<in> set vars" for y var
  proof -
    from that(2) obtain i where i: "i < length vars" "var = vars ! i" by (auto simp: in_set_conv_nth)
    from that(1) vm have "y \<noteq> v" by force
    with mult [OF i(1), of y] inv that i show ?thesis by (simp add: chain_invariant_def)
  qed
  ultimately have "chain_invariant vals vars (insert v settled) subst'"
    unfolding chain_invariant_def by blast
  with s'(1) show ?thesis by blast
qed

lemma chain_invariant_mono:
  "chain_invariant vals vars settled subst \<Longrightarrow> kept \<subseteq> settled \<Longrightarrow>
   chain_invariant vals vars kept subst"
  unfolding chain_invariant_def by blast

lemma minimum_check_total:
  "\<forall>var \<in> set vars. subst (name var) \<noteq> None \<Longrightarrow>
   \<exists>valid. minimum_check vars subst = Inr valid
      \<and> (valid \<longrightarrow> (\<forall>var \<in> set vars. minimum var \<le> len (the (subst (name var)))))"
proof (induction vars)
  case Nil
  show ?case by auto
next
  case (Cons var vars)
  then show ?case by (cases "subst (name var)") auto
qed

lemma partition_body_exact:
  assumes inv: "chain_invariant vals vars (fst ` set vals) subst"
  shows "\<exists>items. partition_body vars u subst = Inr (items, subst)
     \<and> (\<forall>fragment \<in> set items. exact_partition vals vars fragment)"
proof -
  from inv have some: "\<forall>var \<in> set vars. subst (name var) \<noteq> None" and none: "None \<notin> dom subst"
    by (auto simp: chain_invariant_def)
  from minimum_check_total [OF some] obtain valid where
    valid: "minimum_check vars subst = Inr valid"
      "valid \<longrightarrow> (\<forall>var \<in> set vars. minimum var \<le> len (the (subst (name var))))"
    by blast
  show ?thesis
  proof (cases valid)
    case False
    with valid(1) show ?thesis by (simp add: partition_body_def)
  next
    case True
    have "(\<Sum>var\<leftarrow>vars. count var * multiplicity (binding subst var) y) = multiplicity vals y" for y
    proof (cases "y \<in> fst ` set vals")
      case True
      with inv show ?thesis unfolding chain_invariant_def by blast
    next
      case False
      with inv have "\<forall>var \<in> set vars. multiplicity (binding subst var) y = 0"
        unfolding chain_invariant_def by blast
      then have "(\<Sum>var\<leftarrow>vars. count var * multiplicity (binding subst var) y) = (\<Sum>var\<leftarrow>vars. 0)"
        by (intro arg_cong [of _ _ sum_list] map_cong) simp_all
      with False show ?thesis by (simp add: multiplicity_absent)
    qed
    moreover have "\<exists>ms. subst (name var) = Some ms \<and> minimum var \<le> len ms
        \<and> (\<forall>x. 0 \<le> multiplicity ms x)" if "var \<in> set vars" for var
    proof -
      from inv that obtain ms where ms: "subst (name var) = Some ms" "\<forall>x. 0 \<le> multiplicity ms x"
        unfolding chain_invariant_def by blast
      from valid(2) True that have "minimum var \<le> len (the (subst (name var)))" by blast
      with ms show ?thesis by simp
    qed
    ultimately have "exact_partition vals vars subst"
      unfolding exact_partition_def by blast
    with valid(1) True none show ?thesis by (simp add: partition_body_def)
  qed
qed

lemma factory_solutions:
  assumes "2 \<le> length vars" "\<forall>var \<in> set vars. 0 < count var"
  shows "\<exists>sols. make_variable_generator_factory v m vars () =
        map (\<lambda>solution subst.
               case assign_all v (zip vars solution) subst of
                 Inl e \<Rightarrow> Inl e
               | Inr subst' \<Rightarrow> Inr ((), subst')) sols
     \<and> (\<forall>sol \<in> set sols. is_solution m (map count vars) sol)"
proof -
  from assms have "2 \<le> length (map count vars)" "\<forall>c \<in> set (map count vars). 0 < c" by simp_all
  from solve_uncached_correct [OF this, of m]
  obtain sols where "solve_uncached m (map count vars) = (sols, None)"
    "set sols = {xs. is_solution m (map count vars) xs}"
    by (cases "solve_uncached m (map count vars)") auto
  then show ?thesis by (auto simp: make_variable_generator_factory_def)
qed

lemma for_loop_solutions:
  assumes K: "\<And>s. I' s \<Longrightarrow> \<exists>items s'. k u s = (items, Inr s') \<and> (\<forall>f \<in> set items. G f) \<and> I s'"
    and R: "\<And>sol s. sol \<in> set sols \<Longrightarrow> I s \<Longrightarrow> \<exists>s1. step sol s = Inr s1 \<and> I' s1"
  shows "I s \<Longrightarrow>
    \<exists>items s'. for_loop (map (\<lambda>solution subst.
                               case step solution subst of
                                 Inl e \<Rightarrow> Inl e
                               | Inr subst' \<Rightarrow> Inr (u, subst')) sols) k s = (items, Inr s')
       \<and> (\<forall>f \<in> set items. G f) \<and> I s'"
  using R
proof (induction sols arbitrary: s)
  case Nil
  then show ?case by simp
next
  case (Cons sol sols)
  from Cons.prems(2) [of sol s] Cons.prems(1) obtain s1 where s1: "step sol s = Inr s1" "I' s1"
    by auto
  from K [OF s1(2)] obtain items s2 where k: "k u s1 = (items, Inr s2)" "\<forall>f \<in> set items. G f" "I s2"
    by blast
  from Cons.IH [OF k(3)] Cons.prems(2) obtain later s3 where
    l: "for_loop (map (\<lambda>solution subst.
                               case step solution subst of
                                 Inl e \<Rightarrow> Inl e
                               | Inr subst' \<Rightarrow> Inr (u, subst')) sols) k s2 = (later, Inr s3)"
      "\<forall>f \<in> set later. G f" "I s3"
    by auto
  from s1(1) k l show ?case by auto
qed

lemma nested_exact:
  assumes names: "distinct (map name vars)" and counts: "\<forall>var \<in> set vars. 0 < count var"
    and keys: "distinct (map fst vals)" and two: "2 \<le> length vars"
  shows "vals = pre @ rest \<Longrightarrow> chain_invariant vals vars (fst ` set pre) s \<Longrightarrow>
    \<exists>items s'. nested_for (partition_body vars)
                  (map (\<lambda>(value, count'). make_variable_generator_factory value count' vars) rest)
                  () s = (items, Inr s')
       \<and> (\<forall>f \<in> set items. exact_partition vals vars f)
       \<and> chain_invariant vals vars (fst ` set pre) s'"
proof (induction rest arbitrary: pre s)
  case Nil
  then have "chain_invariant vals vars (fst ` set vals) s" by simp
  from partition_body_exact [OF this, of "()"] Nil show ?case by auto
next
  case (Cons p rest)
  obtain v m where p: "p = (v, m)" by (cases p)
  from Cons.prems(1) p have vm: "(v, m) \<in> set vals" by simp
  from factory_solutions [OF two counts, of v m] obtain sols where
    sols: "make_variable_generator_factory v m vars () =
        map (\<lambda>solution subst.
               case assign_all v (zip vars solution) subst of
                 Inl e \<Rightarrow> Inl e
               | Inr subst' \<Rightarrow> Inr ((), subst')) sols"
      "\<forall>sol \<in> set sols. is_solution m (map count vars) sol"
    by blast
  let ?I = "chain_invariant vals vars (fst ` set pre)"
  let ?I' = "chain_invariant vals vars (insert v (fst ` set pre))"
  let ?k = "nested_for (partition_body vars)
      (map (\<lambda>(value, count'). make_variable_generator_factory value count' vars) rest)"
  have K: "\<exists>items s'. ?k () s = (items, Inr s') \<and> (\<forall>f \<in> set items. exact_partition vals vars f)
      \<and> ?I s'" if "?I' s" for s
  proof -
    from Cons.prems(1) p have "vals = (pre @ [(v, m)]) @ rest" by simp
    moreover from that have "chain_invariant vals vars (fst ` set (pre @ [(v, m)])) s" by simp
    ultimately obtain items s' where
      r: "?k () s = (items, Inr s')" "\<forall>f \<in> set items. exact_partition vals vars f"
        "chain_invariant vals vars (fst ` set (pre @ [(v, m)])) s'"
      using Cons.IH [of "pre @ [(v, m)]" s] by blast
    from r(3) have "?I s'" by (rule chain_invariant_mono) auto
    with r(1,2) show ?thesis by blast
  qed
  have R: "\<exists>s1. assign_all v (zip vars sol) s = Inr s1 \<and> ?I' s1"
    if "sol \<in> set sols" "?I s" for sol s
    using chain_invariant_assign [OF that(2) names _ vm keys, of sol] sols(2) that(1) by blast
  from for_loop_solutions [of ?I' ?k "()" "exact_partition vals vars" ?I sols
      "\<lambda>sol. assign_all v (zip vars sol)", OF K R Cons.prems(2)]
  show ?case by (simp add: p sols(1))
qed

lemma initial_invariant:
  assumes "\<forall>var \<in> set vars. name var \<noteq> None"
  shows "chain_invariant vals vars {} (map_of (map (\<lambda>var. (name var, [])) vars))"
proof -
  let ?init = "map_of (map (\<lambda>var. (name var, [] :: 'a Multiset)) vars)"
  have s: "?init (name var) = Some []" if "var \<in> set vars" for var
  proof -
    from that have "name var \<in> fst ` set (map (\<lambda>var. (name var, [] :: 'a Multiset)) vars)"
      by force
    then obtain ms where ms: "?init (name var) = Some ms"
      by (metis map_of_eq_None_iff not_Some_eq)
    then have "(name var, ms) \<in> set (map (\<lambda>var. (name var, [] :: 'a Multiset)) vars)"
      by (rule map_of_SomeD)
    then have "ms = []" by auto
    with ms show ?thesis by simp
  qed
  have "?init None = None"
    using assms by (force simp: map_of_eq_None_iff image_iff)
  with s show ?thesis
    unfolding chain_invariant_def by (auto simp: binding_def)
qed

lemma base_solution_linear_1_1_1: "base_solution_linear 1 1 1 = ([(0, 1), (1, 0)], None)"
  by (simp add: base_solution_linear_def extended_euclid.simps ascend_def while_unfold)

lemma solve_uncached_1_1_1: "solve_uncached 1 [1, 1] = ([[0, 1], [1, 0]], None)"
  by (simp add: solve_uncached.simps base_solution_linear_1_1_1)

text \<open>
  C1 does not hold for a list in which two variables share a name: they share one
  multiset of the dictionary, the second assignment overwrites the first, and in the first
  fragment yielded for \<open>values = {a}\<close> the value \<open>a\<close> of multiplicity 1 is counted
  twice.
\<close>

theorem partition_shared_name_counterexample:
  "commutative_sequence_variable_partition_iter [(CHR ''a'', 1)]
     [\<lparr>name = Some ''x'', count = 1, minimum = 0\<rparr>, \<lparr>name = Some ''x'', count = 1, minimum = 0\<rparr>]
   = Some ([[Some ''x'' \<mapsto> [(CHR ''a'', 1)]], [Some ''x'' \<mapsto> []]], None)
   \<and> \<not> exact_partition [(CHR ''a'', 1)]
        [\<lparr>name = Some ''x'', count = 1, minimum = 0\<rparr>, \<lparr>name = Some ''x'', count = 1, minimum = 0\<rparr>]
        [Some ''x'' \<mapsto> [(CHR ''a'', 1)]]"
  by (simp add: commutative_sequence_variable_partition_iter_def generator_chain_nested
      finished_def make_variable_generator_factory_def solve_uncached_1_1_1 assign_def
      setitem_def partition_body_def len_def Let_def exact_partition_def binding_def
      multiplicity_def)

text \<open>
  C1, for variables with pairwise distinct names: when every variable has a name and a
  positive \<open>count\<close> and no two share a name, the partitioner ends without an exception
  and every fragment it has yielded binds each variable to a multiset of at least
  \<open>minimum\<close> elements such that the bindings, each taken \<open>count\<close> times, add up to
  the input exactly; and a single variable with \<open>count > 1\<close> yields nothing when some
  multiplicity of the input is not divisible by \<open>count\<close>.
\<close>

theorem partition_exact:
  assumes "variables \<noteq> []"
    and "\<forall>var \<in> set variables. name var \<noteq> None \<and> 0 < count var"
    and "distinct (map name variables)"
    and "is_multiset values"
  shows "\<exists>fragments.
      commutative_sequence_variable_partition_iter values variables = Some (fragments, None)
      \<and> (\<forall>fragment \<in> set fragments. exact_partition values variables fragment)
      \<and> (length variables = 1 \<and> 1 < count (variables ! 0)
           \<and> (\<exists>(x, n) \<in> set values. n mod count (variables ! 0) \<noteq> 0) \<longrightarrow> fragments = [])"
proof (cases "length variables = 1")
  case True
  then obtain var where var: "variables = [var]" by (cases variables) auto
  with assms have "0 < count var" "name var \<noteq> None" by simp_all
  from single_variable_exact [OF this assms(4)] show ?thesis
    by (simp add: commutative_sequence_variable_partition_iter_def var)
next
  case False
  moreover from assms(1) have "length variables \<noteq> 0" by simp
  ultimately have two: "2 \<le> length variables" by arith
  from assms(2) have counts: "\<forall>var \<in> set variables. 0 < count var"
    and named: "\<forall>var \<in> set variables. name var \<noteq> None" by simp_all
  from assms(4) have keys: "distinct (map fst values)" by (simp add: is_multiset_def)
  have "chain_invariant values variables (fst ` set [])
      (map_of (map (\<lambda>var. (name var, [])) variables))"
    using initial_invariant [OF named, of "values"] by simp
  from nested_exact [OF assms(3) counts keys two _ this, of "values"]
  obtain items s' where
    "nested_for (partition_body variables)
       (map (\<lambda>(value, count'). make_variable_generator_factory value count' variables) values)
       () (map_of (map (\<lambda>var. (name var, [])) variables)) = (items, Inr s')"
    "\<forall>f \<in> set items. exact_partition values variables f"
    by fastforce
  with False show ?thesis
    by (simp add: commutative_sequence_variable_partition_iter_def generator_chain_nested
        finished_def)
qed

theorem partition_exact_witness:
  "[\<lparr>name = Some ''x'', count = 1, minimum = 1\<rparr>, \<lparr>name = Some ''y'', count = 2, minimum = 0\<rparr>] \<noteq> []
   \<and> distinct (map name
        [\<lparr>name = Some ''x'', count = 1, minimum = 1\<rparr>, \<lparr>name = Some ''y'', count = 2, minimum = 0\<rparr>])
   \<and> list_all (\<lambda>var. name var \<noteq> None \<and> 0 < count var)
        [\<lparr>name = Some ''x'', count = 1, minimum = 1\<rparr>, \<lparr>name = Some ''y'', count = 2, minimum = 0\<rparr>]
   \<and> is_multiset [(CHR ''a'', 3), (CHR ''b'', 2), (CHR ''c'', 1)]
   \<and> (\<exists>fragments.
        commutative_sequence_variable_partition_iter [(CHR ''a'', 3), (CHR ''b'', 2), (CHR ''c'', 1)]
          [\<lparr>name = Some ''x'', count = 1, minimum = 1\<rparr>, \<lparr>name = Some ''y'', count = 2, minimum = 0\<rparr>]
          = Some (fragments, None)
        \<and> list_all (exact_partition [(CHR ''a'', 3), (CHR ''b'', 2), (CHR ''c'', 1)]
             [\<lparr>name = Some ''x'', count = 1, minimum = 1\<rparr>, \<lparr>name = Some ''y'', count = 2, minimum = 0\<rparr>])
            fragments)
   \<and> commutative_sequence_variable_partition_iter [(CHR ''a'', 3)]
        [\<lparr>name = Some ''y'', count = 2, minimum = 0\<rparr>] = Some ([], None)"
  using partition_exact [of
      "[\<lparr>name = Some ''x'', count = 1, minimum = 1\<rparr>, \<lparr>name = Some ''y'', count = 2, minimum = 0\<rparr>]"
      "[(CHR ''a'', 3), (CHR ''b'', 2), (CHR ''c'', 1)]"]
    partition_exact [of "[\<lparr>name = Some ''y'', count = 2, minimum = 0\<rparr>]" "[(CHR ''a'', 3)]"]
  by (auto simp: is_multiset_def list_all_iff)

text \<open>
  C4, at the input \<open>values = {a}\<close> and the variables \<open>x\<close> and an anonymous one (both
  with \<open>count = 1\<close>, \<open>minimum = 0\<close>): the fragment \<open>{x: {}}\<close> is yielded, and the next
  resumption of the factory raises KeyError at \<open>subst[None]\<close>, because the key \<open>None\<close>
  was deleted from the one dictionary before the yield. The partition that binds \<open>x\<close> to
  \<open>{a}\<close> is never yielded.
\<close>

theorem partition_anonymous_variable:
  "commutative_sequence_variable_partition_iter [(v, 1)]
     [\<lparr>name = Some ''x'', count = 1, minimum = 0\<rparr>, \<lparr>name = None, count = 1, minimum = 0\<rparr>]
   = Some ([[Some ''x'' \<mapsto> []]], Some KeyError)"
  by (simp add: commutative_sequence_variable_partition_iter_def generator_chain_nested
      finished_def make_variable_generator_factory_def solve_uncached_1_1_1 assign_def
      setitem_def partition_body_def len_def Let_def)

lemma solve_uncached_1_2:
  "solve_uncached 3 [1, 2] = ([[3, 0], [1, 1]], None)"
  "solve_uncached 2 [1, 2] = ([[2, 0], [0, 1]], None)"
  "solve_uncached 1 [1, 2] = ([[1, 0]], None)"
  by (simp_all add: solve_uncached.simps base_solution_linear_def extended_euclid.simps
      ascend_def descend_def while_unfold)

text \<open>
  The example of the docstring: the values \<open>aaabbc\<close>, \<open>x\<close> with \<open>count = 1\<close> and
  \<open>minimum = 1\<close>, \<open>y\<close> with \<open>count = 2\<close> and \<open>minimum = 0\<close>. The four fragments
  are those the docstring prints, here as the pairs of the bindings of \<open>x\<close> and \<open>y\<close>.
\<close>

lemma partition_docstring_example:
  "map_option (map_prod (map (\<lambda>fragment. (fragment (Some ''x''), fragment (Some ''y'')))) id)
     (commutative_sequence_variable_partition_iter [(CHR ''a'', 3), (CHR ''b'', 2), (CHR ''c'', 1)]
        [\<lparr>name = Some ''x'', count = 1, minimum = 1\<rparr>, \<lparr>name = Some ''y'', count = 2, minimum = 0\<rparr>])
   = Some ([(Some [(CHR ''a'', 3), (CHR ''b'', 2), (CHR ''c'', 1)], Some []),
            (Some [(CHR ''a'', 3), (CHR ''c'', 1)], Some [(CHR ''b'', 1)]),
            (Some [(CHR ''a'', 1), (CHR ''c'', 1), (CHR ''b'', 2)], Some [(CHR ''a'', 1)]),
            (Some [(CHR ''a'', 1), (CHR ''c'', 1)], Some [(CHR ''a'', 1), (CHR ''b'', 1)])], None)"
  by (simp add: commutative_sequence_variable_partition_iter_def generator_chain_nested
      finished_def make_variable_generator_factory_def solve_uncached_1_2 assign_def
      setitem_def partition_body_def len_def Let_def)

end
